theory Spec2Isabelle
  imports Main
begin

section \<open>Posts, threads and the object store\<close>

text \<open>
  The source is TypeScript: \<open>Post\<close> and \<open>Thread\<close> values are objects with identity, the
  manager mutates \<open>Thread\<close> objects in place, \<open>hideComment\<close> mutates a \<open>Post\<close> in place and
  the \<open>threads\<close> getter hands out an array whose identity the renderer compares. The model
  therefore keeps an explicit store: three lists of objects, a reference being an index.
  A new object is appended, so its reference is the length of the list before. A reference
  is valid when it is below the length of its list; JavaScript has no dangling reference,
  so theorems that read through a reference assume it valid.

  \<open>CommentCount\<close> is a JavaScript number that holds an integer. It is kept as an \<open>int\<close>,
  and the additions the source performs on it round as the additions of JavaScript do
  (\<open>number_add\<close> below).
\<close>

type_synonym post_ref = nat
type_synonym thread_ref = nat
type_synonym array_ref = nat

text \<open>\<open>Comments\<close> is \<open>Post[] | null\<close>: \<open>None\<close> is \<open>null\<close>.\<close>

record Post =
  PostHashHex :: string
  Comments :: "post_ref list option"
  CommentCount :: int
  IsHidden :: bool

text \<open>
  \<open>children\<close> is declared \<open>Post[]\<close>, but at run time the array can hold \<open>undefined\<close>
  (see \<open>walkSubcomments\<close>), so an element is a \<open>post_ref option\<close> with \<open>None\<close> for
  \<open>undefined\<close>. The array of children belongs to one \<open>Thread\<close> object and is reached only
  through it, so it is a field of the object rather than a store of its own.
\<close>

record Thread =
  parent :: post_ref
  children :: "post_ref option list"

datatype error = TypeError

section \<open>JavaScript numbers\<close>

text \<open>
  A JavaScript number is an IEEE 754 double. Every integer up to \<open>2^53\<close> in absolute value
  is a double, and \<open>Number.MAX_SAFE_INTEGER\<close> is \<open>2^53 - 1\<close>. Beyond \<open>2^53\<close> a double has
  53 significant bits, and the sum of two numbers is the exact sum rounded to the nearest
  double, a tie going to the double whose last significant bit is even. \<open>bit_length m\<close>
  is the number of binary digits of \<open>m\<close>; \<open>round_number\<close> rounds an integer to a double;
  \<open>number_add\<close> is \<open>+\<close> on numbers that hold integers. The sums of the source add
  \<open>1\<close> or \<open>-1\<close> to a count, which never leaves the finite doubles.
\<close>

definition MAX_SAFE_INTEGER :: int where
  "MAX_SAFE_INTEGER = 9007199254740991"

fun bit_length :: "nat \<Rightarrow> nat" where
  "bit_length n = (if n = 0 then 0 else Suc (bit_length (n div 2)))"

declare bit_length.simps [simp del]

definition round_number :: "int \<Rightarrow> int" where
  "round_number n =
     (if \<bar>n\<bar> \<le> 9007199254740992 then n
      else
        (let m = nat \<bar>n\<bar>;
             unit = 2 ^ (bit_length m - 53);
             q = m div unit;
             r = m mod unit;
             q' = (if unit < 2 * r \<or> (2 * r = unit \<and> odd q) then q + 1 else q)
         in sgn n * int (q' * unit)))"

definition number_add :: "int \<Rightarrow> int \<Rightarrow> int" where
  "number_add x y = round_number (x + y)"

text \<open>
  The store together with the private fields of the one \<open>ThreadManager\<close> under study:
  \<open>threadMap\<close> is a JavaScript \<open>Map\<close>, kept as an association list in insertion order;
  \<open>threadArrayCache\<close> is \<open>None\<close> when \<open>undefined\<close>.
\<close>

record state =
  posts :: "Post list"
  thread_objs :: "Thread list"
  arrays :: "thread_ref list list"
  threadMap :: "(string \<times> thread_ref) list"
  threadArrayCache :: "array_ref option"

definition alloc_post :: "state \<Rightarrow> Post \<Rightarrow> post_ref \<times> state" where
  "alloc_post w p = (length (posts w), w\<lparr>posts := posts w @ [p]\<rparr>)"

definition alloc_thread :: "state \<Rightarrow> Thread \<Rightarrow> thread_ref \<times> state" where
  "alloc_thread w t = (length (thread_objs w), w\<lparr>thread_objs := thread_objs w @ [t]\<rparr>)"

section \<open>Flattening\<close>

text \<open>\<open>xs[0]\<close> of a JavaScript array: \<open>undefined\<close> when the array is empty.\<close>

definition index0 :: "'a list \<Rightarrow> 'a option" where
  "index0 xs = (case xs of [] \<Rightarrow> None | x # _ \<Rightarrow> Some x)"

text \<open>
  \<open>walkSubcomments(subComment, cb)\<close>: the callback runs first, on whatever was passed,
  \<open>undefined\<close> included; \<open>Array.isArray(subComment?.Comments)\<close> is false for \<open>undefined\<close> and
  for a post whose \<open>Comments\<close> is \<open>null\<close>, and true for every array, the empty one too.
  The callback is a function on the state it updates. The store of posts can be cyclic,
  so the recursion need not end: \<open>None\<close> is the walk that never returns.
\<close>

partial_function (option) walkSubcomments ::
  "Post list \<Rightarrow> post_ref option \<Rightarrow> (post_ref option \<Rightarrow> 's \<Rightarrow> 's) \<Rightarrow> 's \<Rightarrow> 's option" where
  "walkSubcomments ps subComment cb s =
     (case subComment of
        None \<Rightarrow> Some (cb None s)
      | Some a \<Rightarrow>
          (case Comments (ps ! a) of
             None \<Rightarrow> Some (cb (Some a) s)
           | Some cs \<Rightarrow> walkSubcomments ps (index0 cs) cb (cb (Some a) s)))"

text \<open>The callback of \<open>flattenThread\<close>: \<open>thread.children.push(subComment)\<close>.\<close>

definition push :: "post_ref option \<Rightarrow> post_ref option list \<Rightarrow> post_ref option list" where
  "push subComment cs = cs @ [subComment]"

text \<open>\<open>parent.Comments.forEach((comment) => walkSubcomments(comment, push))\<close>.\<close>

fun forEach_walk ::
  "Post list \<Rightarrow> post_ref list \<Rightarrow> post_ref option list \<Rightarrow> post_ref option list option" where
  "forEach_walk ps [] acc = Some acc"
| "forEach_walk ps (c # cs) acc =
     (case walkSubcomments ps (Some c) push acc of
        None \<Rightarrow> None
      | Some acc' \<Rightarrow> forEach_walk ps cs acc')"

text \<open>
  \<open>flattenThread(parent)\<close> creates the \<open>Thread\<close> object, fills its children and returns it.
  Nothing else sees the object before it is returned, so the model computes the children
  and then stores the finished object.
\<close>

definition flattenThread :: "state \<Rightarrow> post_ref \<Rightarrow> (thread_ref \<times> state) option" where
  "flattenThread w p =
     (case Comments (posts w ! p) of
        None \<Rightarrow> Some (alloc_thread w \<lparr>parent = p, children = []\<rparr>)
      | Some cs \<Rightarrow>
          (case forEach_walk (posts w) cs [] of
             None \<Rightarrow> None
           | Some ch \<Rightarrow> Some (alloc_thread w \<lparr>parent = p, children = ch\<rparr>)))"

text \<open>
  The walk from \<open>subComment\<close> ends: it stops at a missing node, at a post whose
  \<open>Comments\<close> is \<open>null\<close>, or it descends into the first comment and ends from there.
\<close>

inductive walk_ends :: "Post list \<Rightarrow> post_ref option \<Rightarrow> bool" where
  missing: "walk_ends ps None"
| leaf: "Comments (ps ! a) = None \<Longrightarrow> walk_ends ps (Some a)"
| descend: "Comments (ps ! a) = Some cs \<Longrightarrow> walk_ends ps (index0 cs) \<Longrightarrow> walk_ends ps (Some a)"

section \<open>The JavaScript \<open>Map\<close> and array operations the manager uses\<close>

text \<open>
  A \<open>Map\<close> iterates in insertion order. \<open>set\<close> on a key that is present replaces the
  value where the entry stands; on a new key it adds the entry at the end. \<open>delete\<close>
  removes the entry of the key. Keys are strings and compare by value.
\<close>

fun Map_set :: "(string \<times> 'v) list \<Rightarrow> string \<Rightarrow> 'v \<Rightarrow> (string \<times> 'v) list" where
  "Map_set [] k v = [(k, v)]"
| "Map_set ((k', v') # m) k v =
     (if k' = k then (k, v) # m else (k', v') # Map_set m k v)"

definition Map_get :: "(string \<times> 'v) list \<Rightarrow> string \<Rightarrow> 'v option" where
  "Map_get m k = map_of m k"

definition Map_delete :: "(string \<times> 'v) list \<Rightarrow> string \<Rightarrow> (string \<times> 'v) list" where
  "Map_delete m k = filter (\<lambda>e. fst e \<noteq> k) m"

definition Map_values :: "(string \<times> 'v) list \<Rightarrow> 'v list" where
  "Map_values m = map snd m"

text \<open>
  \<open>xs.slice(start, fin)\<close>: a negative bound counts from the end, and both bounds are
  clipped to the array.
\<close>

definition slice :: "'a list \<Rightarrow> int \<Rightarrow> int \<Rightarrow> 'a list" where
  "slice xs start fin =
     (let n = int (length xs);
          from = (if start < 0 then max (n + start) 0 else min start n);
          to = (if fin < 0 then max (n + fin) 0 else min fin n)
      in take (nat (to - from)) (drop (nat from) xs))"

text \<open>
  \<open>children.findIndex((child) => child.PostHashHex === k)\<close>: the index of the first match,
  \<open>-1\<close> when there is none. Reading \<open>PostHashHex\<close> of an \<open>undefined\<close> element throws.
\<close>

fun findIndex :: "Post list \<Rightarrow> string \<Rightarrow> post_ref option list \<Rightarrow> error + int" where
  "findIndex ps k [] = Inr (- 1)"
| "findIndex ps k (None # cs) = Inl TypeError"
| "findIndex ps k (Some c # cs) =
     (if PostHashHex (ps ! c) = k then Inr 0
      else (case findIndex ps k cs of
              Inl e \<Rightarrow> Inl e
            | Inr i \<Rightarrow> Inr (if i < 0 then - 1 else i + 1)))"

section \<open>ThreadManager\<close>

definition threadCount :: "state \<Rightarrow> nat" where
  "threadCount w = length (threadMap w)"

text \<open>
  The \<open>threads\<close> getter returns the cached array when there is one (every array is truthy,
  the empty one too); otherwise it builds a new array from the map's values, caches it and
  returns it. The result is the array's reference and the state after the read.
\<close>

definition threads :: "state \<Rightarrow> array_ref \<times> state" where
  "threads w =
     (case threadArrayCache w of
        Some a \<Rightarrow> (a, w)
      | None \<Rightarrow>
          (length (arrays w),
           w\<lparr>arrays := arrays w @ [Map_values (threadMap w)],
             threadArrayCache := Some (length (arrays w))\<rparr>))"

definition getThread :: "state \<Rightarrow> string \<Rightarrow> thread_ref option" where
  "getThread w parentPostHashHex = Map_get (threadMap w) parentPostHashHex"

definition removeThread :: "state \<Rightarrow> string \<Rightarrow> state" where
  "removeThread w parentPostHashHex =
     w\<lparr>threadArrayCache := None,
       threadMap := Map_delete (threadMap w) parentPostHashHex\<rparr>"

definition appendComment :: "state \<Rightarrow> post_ref \<Rightarrow> state option" where
  "appendComment w comment =
     (case flattenThread (w\<lparr>threadArrayCache := None\<rparr>) comment of
        None \<Rightarrow> None
      | Some (t, w') \<Rightarrow>
          Some (w'\<lparr>threadMap := Map_set (threadMap w') (PostHashHex (posts w' ! comment)) t\<rparr>))"

fun forEach_appendComment :: "state \<Rightarrow> post_ref list \<Rightarrow> state option" where
  "forEach_appendComment w [] = Some w"
| "forEach_appendComment w (c # cs) =
     (case appendComment w c of
        None \<Rightarrow> None
      | Some w' \<Rightarrow> forEach_appendComment w' cs)"

text \<open>\<open>addThreads(comments)\<close> returns at once when \<open>comments\<close> is not an array.\<close>

definition addThreads :: "state \<Rightarrow> post_ref list option \<Rightarrow> state option" where
  "addThreads w comments =
     (case comments of
        None \<Rightarrow> Some w
      | Some cs \<Rightarrow> forEach_appendComment w cs)"

text \<open>
  \<open>new ThreadManager(rootPost)\<close> on a store of posts: an empty map, no cache, then
  \<open>addThreads(rootPost.Comments)\<close>.
\<close>

definition constructor :: "Post list \<Rightarrow> post_ref \<Rightarrow> state option" where
  "constructor ps rootPost =
     addThreads
       \<lparr>posts = ps, thread_objs = [], arrays = [], threadMap = [], threadArrayCache = None\<rparr>
       (Comments (ps ! rootPost))"

text \<open>
  One step of the loop of \<open>prependComment\<close>:
  \<open>this.threadMap.set(thread.parent.PostHashHex, thread)\<close>.
\<close>

definition set_by_parent :: "state \<Rightarrow> thread_ref \<Rightarrow> state" where
  "set_by_parent w t =
     w\<lparr>threadMap :=
         Map_set (threadMap w) (PostHashHex (posts w ! parent (thread_objs w ! t))) t\<rparr>"

definition prependComment :: "state \<Rightarrow> post_ref \<Rightarrow> state option" where
  "prependComment w comment =
     (let (cur, w1) = threads w;
          currentThreads = arrays w1 ! cur;
          w2 = w1\<lparr>threadArrayCache := None, threadMap := []\<rparr>
      in case flattenThread w2 comment of
           None \<Rightarrow> None
         | Some (t, w3) \<Rightarrow>
             Some (foldl set_by_parent
                     (w3\<lparr>threadMap := Map_set [] (PostHashHex (posts w3 ! comment)) t\<rparr>)
                     currentThreads))"

text \<open>Assignments to the fields of the \<open>Thread\<close> object \<open>t\<close>.\<close>

definition set_parent :: "state \<Rightarrow> thread_ref \<Rightarrow> post_ref \<Rightarrow> state" where
  "set_parent w t p = w\<lparr>thread_objs := (thread_objs w)[t := (thread_objs w ! t)\<lparr>parent := p\<rparr>]\<rparr>"

definition set_children :: "state \<Rightarrow> thread_ref \<Rightarrow> post_ref option list \<Rightarrow> state" where
  "set_children w t cs =
     w\<lparr>thread_objs := (thread_objs w)[t := (thread_objs w ! t)\<lparr>children := cs\<rparr>]\<rparr>"

text \<open>The shallow copy \<open>{...p}\<close>, a new object with the fields of \<open>p\<close>.\<close>

definition shallow_copy :: "state \<Rightarrow> post_ref \<Rightarrow> post_ref \<times> state" where
  "shallow_copy w p = alloc_post w (posts w ! p)"

text \<open>
  The shallow copy \<open>{...p, CommentCount: p.CommentCount + d}\<close>, a new object; the source
  writes it with \<open>+ 1\<close> and with \<open>- 1\<close>.
\<close>

definition copy_with_count :: "state \<Rightarrow> post_ref \<Rightarrow> int \<Rightarrow> post_ref \<times> state" where
  "copy_with_count w p d =
     alloc_post w ((posts w ! p)\<lparr>CommentCount := number_add (CommentCount (posts w ! p)) d\<rparr>)"

text \<open>
  \<open>lastChild\<close> is \<open>null\<close> for an empty array and the last element otherwise, which can be
  \<open>undefined\<close>; \<open>!lastChild\<close> and \<open>lastChild?.PostHashHex\<close> treat the two alike, so both are
  \<open>None\<close>.
\<close>

definition lastChild_of :: "post_ref option list \<Rightarrow> post_ref option" where
  "lastChild_of cs = (if length cs \<noteq> 0 then cs ! (length cs - 1) else None)"

text \<open>
  \<open>addReplyToComment\<close>. A thread that is not in the map is \<open>undefined\<close>, and
  \<open>thread.children\<close> throws before anything is written. \<open>Inl (e, w)\<close> is the error thrown
  and the state it leaves behind. The four branches stand in the order of the source. In
  the second, \<open>lastChild.CommentCount\<close> would throw on a missing \<open>lastChild\<close>; the test of
  that branch excludes it. In the fourth, \<open>replaceNode\<close> is built before \<open>findIndex\<close> runs
  and the parent is copied after it.
\<close>

definition addReplyToComment ::
  "state \<Rightarrow> string \<Rightarrow> post_ref \<Rightarrow> post_ref \<Rightarrow> (error \<times> state) + state" where
  "addReplyToComment w threadPostHashHex replyingToComment reply =
     (case Map_get (threadMap w) threadPostHashHex of
        None \<Rightarrow> Inl (TypeError, w)
      | Some t \<Rightarrow>
          (let thread = thread_objs w ! t;
               lastChild = lastChild_of (children thread);
               replyId = PostHashHex (posts w ! replyingToComment)
           in if replyId = threadPostHashHex \<and> lastChild = None then
                (let (np, w1) = copy_with_count w (parent thread) 1
                 in Inr (set_children (set_parent w1 t np) t [Some reply]))
              else if (case lastChild of
                         None \<Rightarrow> False
                       | Some l \<Rightarrow> replyId = PostHashHex (posts w ! l)) then
                (case lastChild of
                   None \<Rightarrow> Inl (TypeError, w)
                 | Some l \<Rightarrow>
                     (let (prevLastChild, w1) = copy_with_count w l 1;
                          (np, w2) = shallow_copy w1 (parent thread)
                      in Inr (set_children (set_parent w2 t np) t
                                (slice (children thread) 0 (int (length (children thread)) - 1)
                                 @ [Some prevLastChild, Some reply]))))
              else if replyId = threadPostHashHex then
                (let (np, w1) = copy_with_count w (parent thread) 1
                 in Inr (set_parent w1 t np))
              else
                (let (replaceNode, w1) = copy_with_count w replyingToComment 1
                 in case findIndex (posts w1) replyId (children thread) of
                      Inl e \<Rightarrow> Inl (e, w1)
                    | Inr indexToReplace \<Rightarrow>
                        (let (np, w2) = shallow_copy w1 (parent thread)
                         in Inr (set_children (set_parent w2 t np) t
                                   (slice (children thread) 0 indexToReplace
                                    @ [Some replaceNode]
                                    @ slice (children thread) (indexToReplace + 1)
                                        (int (length (children thread)))))))))"

text \<open>
  \<open>hideComment\<close>. \<open>commentToHide.IsHidden = true\<close> (\<open>set_IsHidden\<close>) writes to the object
  passed, before any field of the thread is read, so it is part of the state a thrown
  error leaves behind. With no match \<open>findIndex\<close> yields \<open>-1\<close>, \<open>thread.children[-1]\<close> is
  \<open>undefined\<close> and reading its \<open>CommentCount\<close> throws. The element assignment
  \<open>thread.children[i] = ...\<close> writes into the array the thread object holds.
\<close>

definition set_IsHidden :: "state \<Rightarrow> post_ref \<Rightarrow> state" where
  "set_IsHidden w c = w\<lparr>posts := (posts w)[c := (posts w ! c)\<lparr>IsHidden := True\<rparr>]\<rparr>"

definition hideComment ::
  "state \<Rightarrow> post_ref \<Rightarrow> post_ref \<Rightarrow> string \<Rightarrow> (error \<times> state) + state" where
  "hideComment w commentToHide parentComment threadPostHashHex =
     (let thread = getThread w threadPostHashHex;
          w1 = set_IsHidden w commentToHide
      in case thread of
           None \<Rightarrow> Inl (TypeError, w1)
         | Some t \<Rightarrow>
             if PostHashHex (posts w1 ! parentComment) = threadPostHashHex then
               (let (np, w2) = copy_with_count w1 (parent (thread_objs w1 ! t)) (- 1)
                in Inr (set_parent w2 t np))
             else
               (case findIndex (posts w1) (PostHashHex (posts w1 ! parentComment))
                       (children (thread_objs w1 ! t)) of
                  Inl e \<Rightarrow> Inl (e, w1)
                | Inr indexToDecrement \<Rightarrow>
                    if indexToDecrement < 0 then Inl (TypeError, w1)
                    else
                      (case children (thread_objs w1 ! t) ! nat indexToDecrement of
                         None \<Rightarrow> Inl (TypeError, w1)
                       | Some c \<Rightarrow>
                           (let (nc, w2) = copy_with_count w1 c (- 1)
                            in Inr (set_children w2 t
                                      ((children (thread_objs w2 ! t))
                                         [nat indexToDecrement := Some nc]))))))"

definition reset :: "state \<Rightarrow> state" where
  "reset w = w\<lparr>threadMap := [], threadArrayCache := None\<rparr>"

section \<open>Reachable states and the invariant of the manager\<close>

text \<open>
  A post is well formed on a store when its \<open>Comments\<close> refer to posts of the store.
\<close>

definition comments_ok :: "Post list \<Rightarrow> Post \<Rightarrow> bool" where
  "comments_ok ps p = (case Comments p of None \<Rightarrow> True | Some cs \<Rightarrow> list_all (\<lambda>c. c < length ps) cs)"

text \<open>
  Map-key coherence: every entry of the map has the \<open>PostHashHex\<close> of its thread's
  parent as its key.
\<close>

definition key_coherent :: "state \<Rightarrow> bool" where
  "key_coherent w =
     list_all (\<lambda>(k, t). PostHashHex (posts w ! parent (thread_objs w ! t)) = k) (threadMap w)"

text \<open>
  The states the public operations can produce. Between two calls the data source may
  create a new post (\<open>new_post\<close>). Posts passed to an operation are objects of the store.
  An operation that throws leaves a state behind, and the manager can be used again from
  it; an operation whose walk never returns (on a cyclic store) produces no state.
\<close>

inductive reachable :: "state \<Rightarrow> bool" where
  init: "rootPost < length ps \<Longrightarrow> comments_ok ps (ps ! rootPost) \<Longrightarrow>
         constructor ps rootPost = Some w \<Longrightarrow> reachable w"
| new_post: "reachable w \<Longrightarrow> comments_ok (posts w) p \<Longrightarrow> reachable (w\<lparr>posts := posts w @ [p]\<rparr>)"
| read_threads: "reachable w \<Longrightarrow> reachable (snd (threads w))"
| remove: "reachable w \<Longrightarrow> reachable (removeThread w k)"
| add_threads: "reachable w \<Longrightarrow> list_all (\<lambda>c. c < length (posts w)) cs \<Longrightarrow>
         addThreads w (Some cs) = Some w' \<Longrightarrow> reachable w'"
| prepend: "reachable w \<Longrightarrow> c < length (posts w) \<Longrightarrow> prependComment w c = Some w' \<Longrightarrow> reachable w'"
| append: "reachable w \<Longrightarrow> c < length (posts w) \<Longrightarrow> appendComment w c = Some w' \<Longrightarrow> reachable w'"
| reply: "reachable w \<Longrightarrow> p < length (posts w) \<Longrightarrow> r < length (posts w) \<Longrightarrow>
         addReplyToComment w k p r = Inr w' \<Longrightarrow> reachable w'"
| reply_thrown: "reachable w \<Longrightarrow> p < length (posts w) \<Longrightarrow> r < length (posts w) \<Longrightarrow>
         addReplyToComment w k p r = Inl (e, w') \<Longrightarrow> reachable w'"
| hide: "reachable w \<Longrightarrow> c < length (posts w) \<Longrightarrow> p < length (posts w) \<Longrightarrow>
         hideComment w c p k = Inr w' \<Longrightarrow> reachable w'"
| hide_thrown: "reachable w \<Longrightarrow> c < length (posts w) \<Longrightarrow> p < length (posts w) \<Longrightarrow>
         hideComment w c p k = Inl (e, w') \<Longrightarrow> reachable w'"
| reset: "reachable w \<Longrightarrow> reachable (reset w)"

text \<open>
  The invariant behind coherence: the entries of the map refer to objects of the store
  and are keyed by their parent's \<open>PostHashHex\<close>, the keys are distinct, and a cache that
  is present holds the values of the map.
\<close>

definition entry_ok :: "state \<Rightarrow> string \<times> thread_ref \<Rightarrow> bool" where
  "entry_ok w e =
     (snd e < length (thread_objs w) \<and>
      parent (thread_objs w ! snd e) < length (posts w) \<and>
      PostHashHex (posts w ! parent (thread_objs w ! snd e)) = fst e)"

definition manager_inv :: "state \<Rightarrow> bool" where
  "manager_inv w =
     ((\<forall>e \<in> set (threadMap w). entry_ok w e) \<and>
      distinct (map fst (threadMap w)) \<and>
      (\<forall>a. threadArrayCache w = Some a \<longrightarrow>
           a < length (arrays w) \<and> arrays w ! a = Map_values (threadMap w)))"

text \<open>The key \<open>prependComment\<close> stores a thread under.\<close>

definition parent_key :: "state \<Rightarrow> thread_ref \<Rightarrow> string" where
  "parent_key w t = PostHashHex (posts w ! parent (thread_objs w ! t))"

text \<open>
  What \<open>addReplyToComment\<close> and \<open>hideComment\<close> leave alone: the map, the cache and the
  arrays; and the parent of every thread object keeps its \<open>PostHashHex\<close>.
\<close>

definition parents_kept :: "state \<Rightarrow> state \<Rightarrow> bool" where
  "parents_kept w w' =
     (threadMap w' = threadMap w \<and> threadArrayCache w' = threadArrayCache w \<and>
      arrays w' = arrays w \<and> length (thread_objs w') = length (thread_objs w) \<and>
      (\<forall>u < length (thread_objs w). parent (thread_objs w ! u) < length (posts w) \<longrightarrow>
         parent (thread_objs w' ! u) < length (posts w') \<and>
         PostHashHex (posts w' ! parent (thread_objs w' ! u)) =
           PostHashHex (posts w ! parent (thread_objs w ! u))))"

section \<open>Example stores\<close>

definition mk_post :: "string \<Rightarrow> post_ref list option \<Rightarrow> int \<Rightarrow> Post" where
  "mk_post i cs n = \<lparr>PostHashHex = i, Comments = cs, CommentCount = n, IsHidden = False\<rparr>"

text \<open>\<open>P\<close> with comments \<open>[A]\<close>, \<open>A.Comments = [B]\<close>, \<open>B.Comments = []\<close>.\<close>

definition chain_posts :: "Post list" where
  "chain_posts =
     [mk_post ''P'' (Some [1]) 1, mk_post ''A'' (Some [2]) 1, mk_post ''B'' (Some []) 0]"

text \<open>The same chain with \<open>B.Comments = null\<close>.\<close>

definition chain_posts_null :: "Post list" where
  "chain_posts_null =
     [mk_post ''P'' (Some [1]) 1, mk_post ''A'' (Some [2]) 1, mk_post ''B'' None 0]"

text \<open>
  A root with the replies \<open>P\<close> and \<open>Q\<close>; \<open>P\<close> has the chain \<open>A\<close>, \<open>B\<close>, whose \<open>Comments\<close>
  end in \<open>null\<close>. \<open>R\<close> and \<open>S\<close> are new replies and \<open>Z\<close> is a post of another thread.
\<close>

definition ps0 :: "Post list" where
  "ps0 =
     [mk_post ''root'' (Some [1, 4]) 2, mk_post ''P'' (Some [2]) 1, mk_post ''A'' (Some [3]) 1,
      mk_post ''B'' None 0, mk_post ''Q'' None 0, mk_post ''R'' None 0, mk_post ''Z'' None 7,
      mk_post ''S'' None 0]"

text \<open>The manager built from \<open>ps0\<close> at its root (\<open>constructor_ps0\<close> below).\<close>

definition st0 :: state where
  "st0 =
     \<lparr>posts = ps0,
      thread_objs = [\<lparr>parent = 1, children = [Some 2, Some 3]\<rparr>, \<lparr>parent = 4, children = []\<rparr>],
      arrays = [], threadMap = [(''P'', 0), (''Q'', 1)], threadArrayCache = None\<rparr>"

text \<open>
  A root with the reply \<open>P\<close>, whose comments \<open>A\<close> and \<open>C\<close> both have the empty array as
  \<open>Comments\<close>; \<open>R\<close> is a new reply. \<open>slip_state\<close> is the manager built from it
  (\<open>constructor_slip\<close> below).
\<close>

definition slip_posts :: "Post list" where
  "slip_posts =
     [mk_post ''root'' (Some [1]) 1, mk_post ''P'' (Some [2, 3]) 2, mk_post ''A'' (Some []) 0,
      mk_post ''C'' (Some []) 0, mk_post ''R'' None 0]"

definition slip_state :: state where
  "slip_state =
     \<lparr>posts = slip_posts,
      thread_objs = [\<lparr>parent = 1, children = [Some 2, None, Some 3, None]\<rparr>],
      arrays = [], threadMap = [(''P'', 0)], threadArrayCache = None\<rparr>"

text \<open>\<open>st0\<close> after a first read of \<open>threads\<close>: the array 0 is cached.\<close>

definition st0_read :: state where
  "st0_read = snd (threads st0)"

text \<open>\<open>st0\<close> after a reply \<open>R\<close> to the mid-chain post \<open>A\<close> of thread \<open>P\<close>.\<close>

definition st0_replied :: state where
  "st0_replied = projr (addReplyToComment st0 ''P'' 2 5)"

section \<open>Lemmas\<close>

lemmas op_defs =
  copy_with_count_def shallow_copy_def alloc_post_def set_parent_def set_children_def Let_def

subsection \<open>Numbers\<close>

lemma round_number_small: "\<bar>n\<bar> \<le> 9007199254740992 \<Longrightarrow> round_number n = n"
  by (simp add: round_number_def)

lemma number_add_safe:
  assumes "\<bar>x\<bar> \<le> MAX_SAFE_INTEGER"
  shows "number_add x 1 = x + 1" and "number_add x (- 1) = x - 1"
  using assms by (simp_all add: number_add_def MAX_SAFE_INTEGER_def round_number_small)

text \<open>At \<open>2^53\<close> adding one changes nothing, as in JavaScript.\<close>

lemma bit_length_above_safe: "bit_length 9007199254740993 = 54"
  by (simp add: bit_length.simps)

lemma number_add_rounds:
  "number_add 9007199254740992 1 = 9007199254740992"
  "number_add (- 9007199254740992) (- 1) = - 9007199254740992"
  by (simp_all add: number_add_def round_number_def bit_length_above_safe Let_def)

text \<open>Small counts, for the example stores.\<close>

lemma number_add_examples:
  "number_add 0 1 = 1" "number_add 1 1 = 2" "number_add 7 1 = 8"
  "number_add 1 (- 1) = 0" "number_add 0 (- 1) = - 1"
  by (simp_all add: number_add_def round_number_def)


subsection \<open>Arrays\<close>

lemma slice_butlast: "slice (cs @ [x]) 0 (int (length (cs @ [x])) - 1) = cs"
  by (simp add: slice_def)

lemma lastChild_of_snoc: "lastChild_of (cs @ [x]) = x"
  by (simp add: lastChild_of_def)

lemma slice_prefix: "i \<le> length xs \<Longrightarrow> slice xs 0 (int i) = take i xs"
  by (simp add: slice_def)

lemma slice_suffix: "i < length xs \<Longrightarrow> slice xs (int i + 1) (int (length xs)) = drop (Suc i) xs"
  by (simp add: slice_def nat_add_distrib)

lemma findIndex_first:
  assumes "i < length cs"
    and "PostHashHex (ps ! (cs ! i)) = k"
    and "\<forall>j < i. PostHashHex (ps ! (cs ! j)) \<noteq> k"
  shows "findIndex ps k (map Some cs) = Inr (int i)"
  using assms
proof (induction cs arbitrary: i)
  case Nil
  then show ?case by simp
next
  case (Cons c cs)
  show ?case
  proof (cases i)
    case 0
    with Cons.prems show ?thesis by simp
  next
    case (Suc i')
    have head: "PostHashHex (ps ! c) \<noteq> k"
      using Cons.prems(3) Suc by force
    have "findIndex ps k (map Some cs) = Inr (int i')"
    proof (rule Cons.IH)
      show "i' < length cs" using Cons.prems(1) Suc by simp
      show "PostHashHex (ps ! (cs ! i')) = k" using Cons.prems(2) Suc by simp
      show "\<forall>j<i'. PostHashHex (ps ! (cs ! j)) \<noteq> k"
        using Cons.prems(3) Suc by force
    qed
    with head Suc show ?thesis by simp
  qed
qed

lemma findIndex_distinct:
  assumes "i < length cs"
    and "distinct (map (\<lambda>c. PostHashHex (ps ! c)) cs)"
  shows "findIndex ps (PostHashHex (ps ! (cs ! i))) (map Some cs) = Inr (int i)"
proof (rule findIndex_first[OF assms(1) refl])
  show "\<forall>j<i. PostHashHex (ps ! (cs ! j)) \<noteq> PostHashHex (ps ! (cs ! i))"
  proof (intro allI impI)
    fix j assume "j < i"
    then have "j < length cs" "j \<noteq> i" using assms(1) by simp_all
    then have "map (\<lambda>c. PostHashHex (ps ! c)) cs ! j \<noteq> map (\<lambda>c. PostHashHex (ps ! c)) cs ! i"
      using assms by (simp add: nth_eq_iff_index_eq del: nth_map)
    then show "PostHashHex (ps ! (cs ! j)) \<noteq> PostHashHex (ps ! (cs ! i))"
      using \<open>j < length cs\<close> assms(1) by simp
  qed
qed

lemma findIndex_cong:
  assumes "\<forall>c \<in> set cs. ps' ! c = ps ! c"
  shows "findIndex ps' k (map Some cs) = findIndex ps k (map Some cs)"
  using assms by (induction cs) simp_all

lemma lastChild_of_map_Some: "cs \<noteq> [] \<Longrightarrow> lastChild_of (map Some cs) = Some (last cs)"
  by (simp add: lastChild_of_def last_conv_nth)

lemma distinct_ids_neq:
  assumes "distinct (map (\<lambda>c. PostHashHex (ps ! c)) cs)" "i < length cs" "j < length cs" "i \<noteq> j"
  shows "PostHashHex (ps ! (cs ! i)) \<noteq> PostHashHex (ps ! (cs ! j))"
proof -
  have "map (\<lambda>c. PostHashHex (ps ! c)) cs ! i \<noteq> map (\<lambda>c. PostHashHex (ps ! c)) cs ! j"
    using assms by (simp add: nth_eq_iff_index_eq del: nth_map)
  then show ?thesis using assms(2,3) by simp
qed

lemma nth_update_any: "xs[i := x] ! j = (if i = j \<and> i < length xs then x else xs ! j)"
  by (cases "i < length xs") (simp_all add: nth_list_update list_update_beyond)

subsection \<open>The write of \<open>hideComment\<close>\<close>

lemma set_IsHidden_simps:
  "length (posts (set_IsHidden w c)) = length (posts w)"
  "thread_objs (set_IsHidden w c) = thread_objs w"
  "threadMap (set_IsHidden w c) = threadMap w"
  "threadArrayCache (set_IsHidden w c) = threadArrayCache w"
  "arrays (set_IsHidden w c) = arrays w"
  by (simp_all add: set_IsHidden_def)

lemma set_IsHidden_id: "PostHashHex (posts (set_IsHidden w c) ! a) = PostHashHex (posts w ! a)"
  by (cases "c < length (posts w)") (simp_all add: set_IsHidden_def nth_list_update list_update_beyond)

lemma set_IsHidden_count: "CommentCount (posts (set_IsHidden w c) ! a) = CommentCount (posts w ! a)"
  by (cases "c < length (posts w)") (simp_all add: set_IsHidden_def nth_list_update list_update_beyond)

lemma set_IsHidden_other: "a \<noteq> c \<Longrightarrow> posts (set_IsHidden w c) ! a = posts w ! a"
  by (simp add: set_IsHidden_def)

lemma set_IsHidden_at: "c < length (posts w) \<Longrightarrow> posts (set_IsHidden w c) ! c = (posts w ! c)\<lparr>IsHidden := True\<rparr>"
  by (simp add: set_IsHidden_def)

lemma hide_parent:
  assumes reg: "Map_get (threadMap w) tid = Some t"
    and tv: "t < length (thread_objs w)"
    and pid: "PostHashHex (posts w ! p) = tid"
  shows "hideComment w c p tid =
      Inr ((set_IsHidden w c)
         \<lparr>posts := posts (set_IsHidden w c) @
            [(posts (set_IsHidden w c) ! parent (thread_objs w ! t))
               \<lparr>CommentCount := number_add (CommentCount (posts w ! parent (thread_objs w ! t))) (- 1)\<rparr>],
          thread_objs := (thread_objs w)[t := (thread_objs w ! t)\<lparr>parent := length (posts w)\<rparr>]\<rparr>)"
  using assms
  by (simp add: hideComment_def getThread_def op_defs set_IsHidden_simps set_IsHidden_id set_IsHidden_count)

lemma hide_child:
  assumes reg: "Map_get (threadMap w) tid = Some t"
    and tv: "t < length (thread_objs w)"
    and ntid: "PostHashHex (posts w ! p) \<noteq> tid"
    and ch: "children (thread_objs w ! t) = map Some cs"
    and dist: "distinct (map (\<lambda>c. PostHashHex (posts w ! c)) cs)"
    and i: "i < length cs"
    and pid: "PostHashHex (posts w ! p) = PostHashHex (posts w ! (cs ! i))"
  shows "hideComment w c p tid =
      Inr ((set_IsHidden w c)
         \<lparr>posts := posts (set_IsHidden w c) @
            [(posts (set_IsHidden w c) ! (cs ! i))
               \<lparr>CommentCount := number_add (CommentCount (posts w ! (cs ! i))) (- 1)\<rparr>],
          thread_objs := (thread_objs w)[t := (thread_objs w ! t)
             \<lparr>children := (map Some cs)[i := Some (length (posts w))]\<rparr>]\<rparr>)"
proof -
  let ?w1 = "set_IsHidden w c"
  have dist1: "distinct (map (\<lambda>c. PostHashHex (posts ?w1 ! c)) cs)"
    using dist by (simp add: set_IsHidden_id)
  have fi: "findIndex (posts ?w1) (PostHashHex (posts w ! (cs ! i))) (map Some cs) = Inr (int i)"
    using findIndex_distinct[OF i dist1] by (simp add: set_IsHidden_id)
  show ?thesis
    using reg tv ntid ch i pid fi
    by (simp add: hideComment_def getThread_def op_defs set_IsHidden_simps set_IsHidden_id
        set_IsHidden_count)
qed

subsection \<open>Map lemmas\<close>

lemma Map_set_fresh: "k \<notin> fst ` set m \<Longrightarrow> Map_set m k v = m @ [(k, v)]"
  by (induction m) auto

lemma set_Map_set: "set (Map_set m k v) \<subseteq> insert (k, v) (set m)"
  by (induction m) (auto split: if_splits)

lemma keys_Map_set: "fst ` set (Map_set m k v) = insert k (fst ` set m)"
proof (induction m)
  case Nil
  then show ?case by simp
next
  case (Cons e m)
  obtain k' v' where e: "e = (k', v')" by (cases e)
  show ?case
  proof (cases "k' = k")
    case True
    then show ?thesis by (simp add: e)
  next
    case False
    then show ?thesis using Cons.IH by (simp add: e insert_commute)
  qed
qed

lemma distinct_Map_set: "distinct (map fst m) \<Longrightarrow> distinct (map fst (Map_set m k v))"
proof (induction m)
  case Nil
  then show ?case by simp
next
  case (Cons e m)
  then show ?case
    using keys_Map_set[of m k v] by (cases e) auto
qed

lemma distinct_Map_delete: "distinct (map fst m) \<Longrightarrow> distinct (map fst (Map_delete m k))"
  by (simp add: Map_delete_def distinct_map_filter)

subsection \<open>flattenThread\<close>

text \<open>The walk returns whenever the chain of first comments ends.\<close>

lemma walkSubcomments_returns:
  assumes "walk_ends ps sub"
  shows "\<exists>s'. walkSubcomments ps sub cb s = Some s'"
  using assms
proof (induction arbitrary: s rule: walk_ends.induct)
  case (missing ps)
  show ?case by (subst walkSubcomments.simps) simp
next
  case (leaf ps a)
  then show ?case by (subst walkSubcomments.simps) simp
next
  case (descend ps a cs)
  from descend.IH[of "cb (Some a) s"] descend.hyps(1) show ?case
    by (subst walkSubcomments.simps) simp
qed

lemma forEach_walk_returns:
  assumes "\<forall>c \<in> set cs. walk_ends ps (Some c)"
  shows "\<exists>r. forEach_walk ps cs acc = Some r"
  using assms
proof (induction cs arbitrary: acc)
  case Nil
  then show ?case by simp
next
  case (Cons c cs)
  from Cons.prems have "walk_ends ps (Some c)" by simp
  from walkSubcomments_returns[OF this, of push acc] obtain acc' where
    "walkSubcomments ps (Some c) push acc = Some acc'" ..
  moreover from Cons.IH[of acc'] Cons.prems obtain r where "forEach_walk ps cs acc' = Some r"
    by auto
  ultimately show ?case by simp
qed

lemma flattenThread_returns:
  assumes "\<forall>cs. Comments (posts w ! p) = Some cs \<longrightarrow> (\<forall>c \<in> set cs. walk_ends (posts w) (Some c))"
  shows "\<exists>t w'. flattenThread w p = Some (t, w')"
proof (cases "Comments (posts w ! p)")
  case None
  then show ?thesis by (simp add: flattenThread_def alloc_thread_def)
next
  case (Some cs)
  with assms have "\<forall>c \<in> set cs. walk_ends (posts w) (Some c)" by simp
  from forEach_walk_returns[OF this, of "[]"] obtain ch where
    "forEach_walk (posts w) cs [] = Some ch" by blast
  with Some show ?thesis by (simp add: flattenThread_def alloc_thread_def)
qed

lemma flattenThread_result:
  assumes "flattenThread w p = Some (t, w')"
  shows "\<exists>ch. t = length (thread_objs w) \<and>
              w' = w\<lparr>thread_objs := thread_objs w @ [\<lparr>parent = p, children = ch\<rparr>]\<rparr>"
  using assms
  by (auto simp: flattenThread_def alloc_thread_def split: option.splits)

lemma flattenThread_posts_only:
  assumes "flattenThread w p = Some (t, w')" and "posts v = posts w"
  shows "flattenThread v p =
           Some (length (thread_objs v), v\<lparr>thread_objs := thread_objs v @ [thread_objs w' ! t]\<rparr>)"
  using assms
  by (auto simp: flattenThread_def alloc_thread_def split: option.splits)

lemma appendComment_inv:
  assumes inv: "manager_inv w" and c: "c < length (posts w)" and run: "appendComment w c = Some w'"
  shows "manager_inv w' \<and> posts w' = posts w"
proof -
  from run obtain t v where fl: "flattenThread (w\<lparr>threadArrayCache := None\<rparr>) c = Some (t, v)"
    and w': "w' = v\<lparr>threadMap := Map_set (threadMap v) (PostHashHex (posts v ! c)) t\<rparr>"
    by (auto simp: appendComment_def split: option.splits)
  from flattenThread_result[OF fl] obtain ch where t: "t = length (thread_objs w)"
    and v: "v = w\<lparr>threadArrayCache := None, thread_objs := thread_objs w @ [\<lparr>parent = c, children = ch\<rparr>]\<rparr>"
    by auto
  let ?k = "PostHashHex (posts w ! c)"
  have w'': "w' = w\<lparr>threadArrayCache := None,
                   thread_objs := thread_objs w @ [\<lparr>parent = c, children = ch\<rparr>],
                   threadMap := Map_set (threadMap w) ?k t\<rparr>"
    using w' v by simp
  have new: "entry_ok w' (?k, t)"
    using c by (simp add: w'' entry_ok_def t)
  have old: "entry_ok w' e" if "e \<in> set (threadMap w)" for e
    using inv that by (auto simp: w'' manager_inv_def entry_ok_def nth_append)
  have "\<forall>e \<in> set (threadMap w'). entry_ok w' e"
  proof
    fix e assume "e \<in> set (threadMap w')"
    then have "e = (?k, t) \<or> e \<in> set (threadMap w)"
      using set_Map_set[of "threadMap w" ?k t] by (auto simp: w'')
    then show "entry_ok w' e" using new old by blast
  qed
  moreover have "distinct (map fst (threadMap w'))"
    using inv by (simp add: w'' manager_inv_def distinct_Map_set)
  moreover have "threadArrayCache w' = None" by (simp add: w'')
  ultimately show ?thesis by (simp add: manager_inv_def w'')
qed

lemma forEach_appendComment_inv:
  assumes "manager_inv w" and "\<forall>c \<in> set cs. c < length (posts w)"
    and "forEach_appendComment w cs = Some w'"
  shows "manager_inv w' \<and> posts w' = posts w"
  using assms
proof (induction cs arbitrary: w)
  case Nil
  then show ?case by simp
next
  case (Cons c cs)
  from Cons.prems(3) obtain v where v: "appendComment w c = Some v"
    and rest: "forEach_appendComment v cs = Some w'"
    by (auto split: option.splits)
  have step: "manager_inv v \<and> posts v = posts w"
    using appendComment_inv[OF Cons.prems(1) _ v] Cons.prems(2) by simp
  then have "manager_inv w' \<and> posts w' = posts v"
    using Cons.IH[of v] Cons.prems(2) rest by simp
  with step show ?case by simp
qed


subsection \<open>threads\<close>

lemma threads_frame:
  "posts (snd (threads w)) = posts w"
  "thread_objs (snd (threads w)) = thread_objs w"
  "threadMap (snd (threads w)) = threadMap w"
  by (simp_all add: threads_def split: option.splits)

lemma threads_current:
  assumes "manager_inv w"
  shows "arrays (snd (threads w)) ! fst (threads w) = Map_values (threadMap w)"
  using assms by (auto simp: threads_def manager_inv_def split: option.splits)

lemma threads_inv: "manager_inv w \<Longrightarrow> manager_inv (snd (threads w))"
  by (auto simp: threads_def manager_inv_def entry_ok_def nth_append split: option.splits)

subsection \<open>prependComment\<close>

lemma foldl_set_by_parent:
  "foldl set_by_parent v ts =
     v\<lparr>threadMap := foldl (\<lambda>m t. Map_set m (parent_key v t) t) (threadMap v) ts\<rparr>"
proof (induction ts arbitrary: v)
  case Nil
  then show ?case by simp
next
  case (Cons t ts)
  have key: "parent_key (set_by_parent v t) = parent_key v"
    by (rule ext) (simp add: parent_key_def set_by_parent_def)
  show ?case
    by (simp add: Cons.IH key) (simp add: set_by_parent_def parent_key_def)
qed

lemma set_foldl_Map_set:
  "set (foldl (\<lambda>m t. Map_set m (f t) t) m ts) \<subseteq> set m \<union> (\<lambda>t. (f t, t)) ` set ts"
proof (induction ts arbitrary: m)
  case Nil
  then show ?case by simp
next
  case (Cons t ts)
  show ?case
    using Cons.IH[of "Map_set m (f t) t"] set_Map_set[of m "f t" t] by auto
qed

lemma distinct_foldl_Map_set:
  "distinct (map fst m) \<Longrightarrow> distinct (map fst (foldl (\<lambda>m t. Map_set m (f t) t) m ts))"
  by (induction ts arbitrary: m) (simp_all add: distinct_Map_set)

lemma foldl_Map_set_fresh:
  "distinct (map fst m @ map f ts) \<Longrightarrow>
   foldl (\<lambda>m t. Map_set m (f t) t) m ts = m @ map (\<lambda>t. (f t, t)) ts"
proof (induction ts arbitrary: m)
  case Nil
  then show ?case by simp
next
  case (Cons t ts)
  have fresh: "f t \<notin> fst ` set m" using Cons.prems by auto
  have step: "Map_set m (f t) t = m @ [(f t, t)]" by (rule Map_set_fresh[OF fresh])
  have "distinct (map fst (m @ [(f t, t)]) @ map f ts)" using Cons.prems by auto
  from Cons.IH[OF this] show ?case by (simp add: step)
qed

lemma prependComment_unfold:
  assumes inv: "manager_inv w" and run: "prependComment w c = Some w'"
  shows "\<exists>ch. w' = (snd (threads w))
           \<lparr>threadArrayCache := None,
            thread_objs := thread_objs w @ [\<lparr>parent = c, children = ch\<rparr>],
            threadMap := foldl (\<lambda>m t. Map_set m
                 (parent_key (w\<lparr>thread_objs := thread_objs w @ [\<lparr>parent = c, children = ch\<rparr>]\<rparr>) t) t)
              [(PostHashHex (posts w ! c), length (thread_objs w))] (Map_values (threadMap w))\<rparr> \<and>
         flattenThread w c = Some (length (thread_objs w),
              w\<lparr>thread_objs := thread_objs w @ [\<lparr>parent = c, children = ch\<rparr>]\<rparr>)"
proof -
  obtain cur w1 where th: "threads w = (cur, w1)" by (cases "threads w")
  have cur: "arrays w1 ! cur = Map_values (threadMap w)"
    using threads_current[OF inv] th by simp
  have fr: "posts w1 = posts w" "thread_objs w1 = thread_objs w"
    using threads_frame[of w] th by simp_all
  let ?w2 = "w1\<lparr>threadArrayCache := None, threadMap := []\<rparr>"
  from run th obtain t w3 where fl: "flattenThread ?w2 c = Some (t, w3)"
    and w': "w' = foldl set_by_parent
                (w3\<lparr>threadMap := Map_set [] (PostHashHex (posts w3 ! c)) t\<rparr>) (arrays w1 ! cur)"
    by (auto simp: prependComment_def Let_def split: option.splits)
  from flattenThread_result[OF fl] obtain ch where t: "t = length (thread_objs w)"
    and w3: "w3 = ?w2\<lparr>thread_objs := thread_objs w @ [\<lparr>parent = c, children = ch\<rparr>]\<rparr>"
    using fr by auto
  have flw: "flattenThread w c = Some (length (thread_objs w),
              w\<lparr>thread_objs := thread_objs w @ [\<lparr>parent = c, children = ch\<rparr>]\<rparr>)"
    using flattenThread_posts_only[OF fl, of w] fr by (simp add: w3 t)
  have pk: "parent_key (w3\<lparr>threadMap := m\<rparr>) =
            parent_key (w\<lparr>thread_objs := thread_objs w @ [\<lparr>parent = c, children = ch\<rparr>]\<rparr>)" for m
    by (rule ext) (simp add: parent_key_def w3 fr)
  have "w' = w1\<lparr>threadArrayCache := None,
            thread_objs := thread_objs w @ [\<lparr>parent = c, children = ch\<rparr>],
            threadMap := foldl (\<lambda>m t. Map_set m
                 (parent_key (w\<lparr>thread_objs := thread_objs w @ [\<lparr>parent = c, children = ch\<rparr>]\<rparr>) t) t)
              [(PostHashHex (posts w ! c), length (thread_objs w))] (Map_values (threadMap w))\<rparr>"
    unfolding w' foldl_set_by_parent pk cur
    by (simp add: w3 fr t)
  with flw th show ?thesis by auto
qed


lemma parent_key_old:
  assumes "entry_ok w e"
  shows "parent_key (w\<lparr>thread_objs := thread_objs w @ [th]\<rparr>) (snd e) = fst e"
  using assms by (simp add: parent_key_def entry_ok_def nth_append)

lemma prependComment_inv:
  assumes inv: "manager_inv w" and c: "c < length (posts w)" and run: "prependComment w c = Some w'"
  shows "manager_inv w'"
proof -
  from prependComment_unfold[OF inv run] obtain ch where
    w': "w' = (snd (threads w))
           \<lparr>threadArrayCache := None,
            thread_objs := thread_objs w @ [\<lparr>parent = c, children = ch\<rparr>],
            threadMap := foldl (\<lambda>m t. Map_set m
                 (parent_key (w\<lparr>thread_objs := thread_objs w @ [\<lparr>parent = c, children = ch\<rparr>]\<rparr>) t) t)
              [(PostHashHex (posts w ! c), length (thread_objs w))] (Map_values (threadMap w))\<rparr>"
    by blast
  let ?v = "w\<lparr>thread_objs := thread_objs w @ [\<lparr>parent = c, children = ch\<rparr>]\<rparr>"
  let ?init = "[(PostHashHex (posts w ! c), length (thread_objs w))]"
  let ?m = "foldl (\<lambda>m t. Map_set m (parent_key ?v t) t) ?init (Map_values (threadMap w))"
  have posts': "posts w' = posts w" and objs': "thread_objs w' = thread_objs ?v"
    and map': "threadMap w' = ?m" and cache': "threadArrayCache w' = None"
    by (simp_all add: w' threads_frame)
  have "\<forall>e \<in> set ?m. entry_ok w' e"
  proof
    fix e assume "e \<in> set ?m"
    then have "e \<in> set ?init \<or> e \<in> (\<lambda>t. (parent_key ?v t, t)) ` set (Map_values (threadMap w))"
      using set_foldl_Map_set[of "parent_key ?v" ?init "Map_values (threadMap w)"] by blast
    then show "entry_ok w' e"
    proof
      assume "e \<in> set ?init"
      then show ?thesis using c by (simp add: entry_ok_def posts' objs')
    next
      assume "e \<in> (\<lambda>t. (parent_key ?v t, t)) ` set (Map_values (threadMap w))"
      then obtain k t where kt: "(k, t) \<in> set (threadMap w)" and e: "e = (parent_key ?v t, t)"
        by (auto simp: Map_values_def)
      have ok: "entry_ok w (k, t)" using inv kt by (simp add: manager_inv_def)
      then show ?thesis
        by (simp add: e entry_ok_def posts' objs' parent_key_def nth_append)
    qed
  qed
  moreover have "distinct (map fst ?m)"
    by (rule distinct_foldl_Map_set) simp
  ultimately show ?thesis
    by (simp add: manager_inv_def map' cache')
qed

lemma prependComment_order:
  assumes inv: "manager_inv w"
    and fresh: "Map_get (threadMap w) (PostHashHex (posts w ! c)) = None"
    and run: "prependComment w c = Some w'"
  shows "threadMap w' = (PostHashHex (posts w ! c), length (thread_objs w)) # threadMap w"
proof -
  from prependComment_unfold[OF inv run] obtain ch where
    w': "w' = (snd (threads w))
           \<lparr>threadArrayCache := None,
            thread_objs := thread_objs w @ [\<lparr>parent = c, children = ch\<rparr>],
            threadMap := foldl (\<lambda>m t. Map_set m
                 (parent_key (w\<lparr>thread_objs := thread_objs w @ [\<lparr>parent = c, children = ch\<rparr>]\<rparr>) t) t)
              [(PostHashHex (posts w ! c), length (thread_objs w))] (Map_values (threadMap w))\<rparr>"
    by blast
  let ?v = "w\<lparr>thread_objs := thread_objs w @ [\<lparr>parent = c, children = ch\<rparr>]\<rparr>"
  let ?init = "[(PostHashHex (posts w ! c), length (thread_objs w))]"
  have ok: "\<forall>e \<in> set (threadMap w). entry_ok w e" using inv by (simp add: manager_inv_def)
  have keys: "map (parent_key ?v) (Map_values (threadMap w)) = map fst (threadMap w)"
    using ok parent_key_old by (simp add: Map_values_def)
  have entries: "map (\<lambda>t. (parent_key ?v t, t)) (Map_values (threadMap w)) = threadMap w"
    using ok parent_key_old by (simp add: Map_values_def map_idI)
  have notin: "PostHashHex (posts w ! c) \<notin> fst ` set (threadMap w)"
    using fresh by (simp add: Map_get_def map_of_eq_None_iff)
  have "distinct (map fst ?init @ map (parent_key ?v) (Map_values (threadMap w)))"
    using inv notin by (simp add: keys manager_inv_def)
  from foldl_Map_set_fresh[OF this] show ?thesis
    by (simp add: w' entries)
qed


subsection \<open>addReplyToComment and hideComment keep the map\<close>

lemma parents_kept_inv:
  assumes "manager_inv w" and "parents_kept w w'"
  shows "manager_inv w'"
  using assms
  by (auto simp: manager_inv_def parents_kept_def entry_ok_def)

lemma addReplyToComment_parents_kept:
  assumes "addReplyToComment w tid p r = Inr w' \<or> addReplyToComment w tid p r = Inl (e, w')"
  shows "parents_kept w w'"
  using assms
  by (auto simp: addReplyToComment_def parents_kept_def op_defs nth_append nth_update_any
      split: option.splits if_splits sum.splits)

lemma parents_kept_trans:
  assumes "parents_kept w v" and "parents_kept v w'"
  shows "parents_kept w w'"
  using assms by (simp add: parents_kept_def)

lemma set_IsHidden_parents_kept: "parents_kept w (set_IsHidden w c)"
  by (simp add: parents_kept_def set_IsHidden_simps set_IsHidden_id)

lemma hideComment_after_write:
  assumes "hideComment w c p tid = Inr w' \<or> hideComment w c p tid = Inl (e, w')"
  shows "parents_kept (set_IsHidden w c) w'"
  using assms
  by (auto simp: hideComment_def getThread_def parents_kept_def op_defs nth_append nth_update_any
      set_IsHidden_simps
      split: option.splits if_splits sum.splits)

lemma hideComment_parents_kept:
  assumes "hideComment w c p tid = Inr w' \<or> hideComment w c p tid = Inl (e, w')"
  shows "parents_kept w w'"
  using parents_kept_trans[OF set_IsHidden_parents_kept hideComment_after_write[OF assms]] .


subsection \<open>Every reachable state satisfies the invariant\<close>

lemma addThreads_inv:
  assumes "manager_inv w" and "list_all (\<lambda>c. c < length (posts w)) cs"
    and "addThreads w (Some cs) = Some w'"
  shows "manager_inv w'"
  using forEach_appendComment_inv[of w cs w'] assms
  by (simp add: addThreads_def list_all_iff)

lemma constructor_inv:
  assumes "comments_ok ps (ps ! rootPost)" and "constructor ps rootPost = Some w"
  shows "manager_inv w"
proof -
  let ?w0 = "\<lparr>posts = ps, thread_objs = [], arrays = [], threadMap = [], threadArrayCache = None\<rparr>"
  have inv0: "manager_inv ?w0" by (simp add: manager_inv_def)
  show ?thesis
  proof (cases "Comments (ps ! rootPost)")
    case None
    then show ?thesis using assms(2) inv0 by (simp add: constructor_def addThreads_def)
  next
    case (Some cs)
    then have "\<forall>c \<in> set cs. c < length (posts ?w0)"
      using assms(1) by (simp add: comments_ok_def list_all_iff)
    moreover have "forEach_appendComment ?w0 cs = Some w"
      using assms(2) Some by (simp add: constructor_def addThreads_def)
    ultimately show ?thesis
      using forEach_appendComment_inv[OF inv0] by blast
  qed
qed

lemma new_post_inv: "manager_inv w \<Longrightarrow> manager_inv (w\<lparr>posts := posts w @ [p]\<rparr>)"
  by (auto simp: manager_inv_def entry_ok_def nth_append)

lemma removeThread_inv:
  assumes "manager_inv w"
  shows "manager_inv (removeThread w k)"
proof -
  have "set (Map_delete (threadMap w) k) \<subseteq> set (threadMap w)"
    by (auto simp: Map_delete_def)
  moreover have "entry_ok (removeThread w k) e = entry_ok w e" for e
    by (simp add: entry_ok_def removeThread_def)
  ultimately show ?thesis
    using assms distinct_Map_delete[of "threadMap w" k]
    by (auto simp: manager_inv_def removeThread_def)
qed

lemma reset_inv: "manager_inv (reset w)"
  by (simp add: manager_inv_def reset_def)

lemma reachable_inv: "reachable w \<Longrightarrow> manager_inv w"
proof (induction rule: reachable.induct)
  case (init rootPost ps w)
  then show ?case by (simp add: constructor_inv)
next
  case (new_post w p)
  then show ?case by (simp add: new_post_inv)
next
  case (read_threads w)
  then show ?case by (simp add: threads_inv)
next
  case (remove w k)
  then show ?case by (simp add: removeThread_inv)
next
  case (add_threads w cs w')
  then show ?case using addThreads_inv by blast
next
  case (prepend w c w')
  then show ?case using prependComment_inv by blast
next
  case (append w c w')
  then show ?case using appendComment_inv by blast
next
  case (reply w p r k w')
  then show ?case using parents_kept_inv addReplyToComment_parents_kept by blast
next
  case (reply_thrown w p r k e w')
  then show ?case using parents_kept_inv addReplyToComment_parents_kept by blast
next
  case (hide w c p k w')
  then show ?case using parents_kept_inv hideComment_parents_kept by blast
next
  case (hide_thrown w c p k e w')
  then show ?case using parents_kept_inv hideComment_parents_kept by blast
next
  case (reset w)
  then show ?case by (simp add: reset_inv)
qed

lemma manager_inv_key_coherent: "manager_inv w \<Longrightarrow> key_coherent w"
  by (auto simp: manager_inv_def key_coherent_def entry_ok_def list_all_iff)

subsection \<open>The branches on chains of posts\<close>

text \<open>
  What a reply to the thread's parent, a reply to a mid-chain node and \<open>hideComment\<close> do
  when the chain holds posts only (no \<open>undefined\<close> element) with distinct ids.
\<close>

lemma reply_to_parent_on_posts:
  assumes reg: "Map_get (threadMap w) tid = Some t"
    and tv: "t < length (thread_objs w)"
    and pv: "parent (thread_objs w ! t) < length (posts w)"
    and pid: "PostHashHex (posts w ! p) = tid"
    and shape: "children (thread_objs w ! t) = [] \<or>
                (\<exists>cs l. children (thread_objs w ! t) = cs @ [Some l] \<and> PostHashHex (posts w ! l) \<noteq> tid)"
  shows "\<exists>w'. addReplyToComment w tid p r = Inr w' \<and>
           parent (thread_objs w' ! t) = length (posts w) \<and>
           posts w' ! length (posts w) =
             (posts w ! parent (thread_objs w ! t))
               \<lparr>CommentCount := number_add (CommentCount (posts w ! parent (thread_objs w ! t))) 1\<rparr> \<and>
           children (thread_objs w' ! t) =
             (if children (thread_objs w ! t) = [] then [Some r] else children (thread_objs w ! t)) \<and>
           length (posts w') = length (posts w) + 1 \<and>
           (\<forall>a < length (posts w). posts w' ! a = posts w ! a) \<and>
           (\<forall>u. u \<noteq> t \<longrightarrow> thread_objs w' ! u = thread_objs w ! u) \<and>
           length (thread_objs w') = length (thread_objs w) \<and>
           threadMap w' = threadMap w \<and> threadArrayCache w' = threadArrayCache w \<and> arrays w' = arrays w"
proof -
  let ?n = "length (posts w)"
  let ?th = "thread_objs w ! t"
  let ?p' = "(posts w ! parent ?th)\<lparr>CommentCount := number_add (CommentCount (posts w ! parent ?th)) 1\<rparr>"
  from shape show ?thesis
  proof
    assume emp: "children ?th = []"
    have run: "addReplyToComment w tid p r =
        Inr (w\<lparr>posts := posts w @ [?p'],
               thread_objs := (thread_objs w)[t := ?th\<lparr>parent := ?n, children := [Some r]\<rparr>]\<rparr>)"
      using reg tv pv pid emp
      by (simp add: addReplyToComment_def op_defs lastChild_of_def)
    show ?thesis
      unfolding run using tv emp by (simp add: nth_append)
  next
    assume "\<exists>cs l. children ?th = cs @ [Some l] \<and> PostHashHex (posts w ! l) \<noteq> tid"
    then obtain cs l where ch: "children ?th = cs @ [Some l]" and l: "PostHashHex (posts w ! l) \<noteq> tid"
      by blast
    have run: "addReplyToComment w tid p r =
        Inr (w\<lparr>posts := posts w @ [?p'],
               thread_objs := (thread_objs w)[t := ?th\<lparr>parent := ?n\<rparr>]\<rparr>)"
      using reg tv pv pid l ch
      by (simp add: addReplyToComment_def op_defs lastChild_of_snoc)
    show ?thesis
      unfolding run using tv ch by (simp add: nth_append)
  qed
qed

lemma reply_midchain_on_posts:
  assumes reg: "Map_get (threadMap w) tid = Some t"
    and tv: "t < length (thread_objs w)"
    and pv: "parent (thread_objs w ! t) < length (posts w)"
    and ch: "children (thread_objs w ! t) = map Some cs"
    and cv: "\<forall>c \<in> set cs. c < length (posts w)"
    and dist: "distinct (map (\<lambda>c. PostHashHex (posts w ! c)) cs)"
    and i: "i + 1 < length cs"
    and pid: "PostHashHex (posts w ! p) = PostHashHex (posts w ! (cs ! i))"
    and ntid: "PostHashHex (posts w ! p) \<noteq> tid"
  shows "\<exists>w'. addReplyToComment w tid p r = Inr w' \<and>
           children (thread_objs w' ! t) = (map Some cs)[i := Some (length (posts w))] \<and>
           posts w' ! length (posts w) = (posts w ! p)\<lparr>CommentCount := number_add (CommentCount (posts w ! p)) 1\<rparr> \<and>
           parent (thread_objs w' ! t) = Suc (length (posts w)) \<and>
           posts w' ! Suc (length (posts w)) = posts w ! parent (thread_objs w ! t) \<and>
           length (posts w') = length (posts w) + 2 \<and>
           (\<forall>a < length (posts w). posts w' ! a = posts w ! a) \<and>
           (\<forall>u. u \<noteq> t \<longrightarrow> thread_objs w' ! u = thread_objs w ! u) \<and>
           length (thread_objs w') = length (thread_objs w) \<and>
           threadMap w' = threadMap w \<and> threadArrayCache w' = threadArrayCache w \<and> arrays w' = arrays w"
proof -
  let ?n = "length (posts w)"
  let ?th = "thread_objs w ! t"
  let ?p' = "(posts w ! p)\<lparr>CommentCount := number_add (CommentCount (posts w ! p)) 1\<rparr>"
  let ?k = "PostHashHex (posts w ! p)"
  have ne: "cs \<noteq> []" and il: "i < length cs" and ilast: "i \<noteq> length cs - 1"
    using i by auto
  have last_id: "PostHashHex (posts w ! last cs) \<noteq> ?k"
    using distinct_ids_neq[OF dist il _ ilast] ne pid by (simp add: last_conv_nth)
  have "findIndex (posts w @ [?p']) ?k (map Some cs) = findIndex (posts w) ?k (map Some cs)"
    by (rule findIndex_cong) (use cv in \<open>simp add: nth_append\<close>)
  also have "\<dots> = Inr (int i)"
    unfolding pid by (rule findIndex_distinct[OF il dist])
  finally have fi: "findIndex (posts w @ [?p']) ?k (map Some cs) = Inr (int i)" .
  have sl: "slice (map Some cs) 0 (int i) @ [Some ?n] @ slice (map Some cs) (int i + 1) (int (length cs))
            = (map Some cs)[i := Some ?n]"
    using il slice_prefix[of i "map Some cs"] slice_suffix[of i "map Some cs"]
    by (simp add: upd_conv_take_nth_drop)
  have run: "addReplyToComment w tid p r =
      Inr (w\<lparr>posts := posts w @ [?p', posts w ! parent ?th],
             thread_objs := (thread_objs w)[t := ?th\<lparr>parent := Suc ?n,
                children := (map Some cs)[i := Some ?n]\<rparr>]\<rparr>)"
    using reg tv pv ch ntid last_id ne fi sl
    by (simp add: addReplyToComment_def op_defs lastChild_of_map_Some nth_append)
  show ?thesis
    unfolding run using tv by (simp add: nth_append)
qed

lemma hide_on_posts:
  assumes reg: "Map_get (threadMap w) tid = Some t"
    and tv: "t < length (thread_objs w)"
    and cval: "c < length (posts w)"
    and node: "PostHashHex (posts w ! p) = tid \<and> x = parent (thread_objs w ! t) \<or>
               PostHashHex (posts w ! p) \<noteq> tid \<and> children (thread_objs w ! t) = map Some cs \<and>
               distinct (map (\<lambda>c. PostHashHex (posts w ! c)) cs) \<and>
               i < length cs \<and> x = cs ! i \<and> PostHashHex (posts w ! p) = PostHashHex (posts w ! x)"
  shows "\<exists>w'. hideComment w c p tid = Inr w' \<and>
           posts w' ! c = (posts w ! c)\<lparr>IsHidden := True\<rparr> \<and>
           (\<forall>a < length (posts w). a \<noteq> c \<longrightarrow> posts w' ! a = posts w ! a) \<and>
           length (posts w') = length (posts w) + 1 \<and>
           posts w' ! length (posts w) =
             (posts (set_IsHidden w c) ! x)\<lparr>CommentCount := number_add (CommentCount (posts w ! x)) (- 1)\<rparr> \<and>
           (if PostHashHex (posts w ! p) = tid
            then parent (thread_objs w' ! t) = length (posts w) \<and>
                 children (thread_objs w' ! t) = children (thread_objs w ! t)
            else parent (thread_objs w' ! t) = parent (thread_objs w ! t) \<and>
                 children (thread_objs w' ! t) = (map Some cs)[i := Some (length (posts w))]) \<and>
           (\<forall>u. u \<noteq> t \<longrightarrow> thread_objs w' ! u = thread_objs w ! u) \<and>
           length (thread_objs w') = length (thread_objs w) \<and>
           threadMap w' = threadMap w \<and> threadArrayCache w' = threadArrayCache w \<and> arrays w' = arrays w"
  using node
proof
  assume a: "PostHashHex (posts w ! p) = tid \<and> x = parent (thread_objs w ! t)"
  show ?thesis
    unfolding hide_parent[OF reg tv conjunct1[OF a]]
    using tv cval a
    by (simp add: nth_append set_IsHidden_simps set_IsHidden_other set_IsHidden_at)
next
  assume b: "PostHashHex (posts w ! p) \<noteq> tid \<and> children (thread_objs w ! t) = map Some cs \<and>
               distinct (map (\<lambda>c. PostHashHex (posts w ! c)) cs) \<and>
               i < length cs \<and> x = cs ! i \<and> PostHashHex (posts w ! p) = PostHashHex (posts w ! x)"
  then have b1: "PostHashHex (posts w ! p) \<noteq> tid" and b2: "children (thread_objs w ! t) = map Some cs"
    and b3: "distinct (map (\<lambda>c. PostHashHex (posts w ! c)) cs)" and b4: "i < length cs"
    and b5: "PostHashHex (posts w ! p) = PostHashHex (posts w ! (cs ! i))"
    by auto
  note run = hide_child[OF reg tv b1 b2 b3 b4 b5, of c]
  from b have bx: "x = cs ! i" by simp
  from b1 b5 have b6: "PostHashHex (posts w ! (cs ! i)) \<noteq> tid" by simp
  show ?thesis
    unfolding run
    using tv cval b1 b6 bx
    by (simp add: nth_append set_IsHidden_simps set_IsHidden_other set_IsHidden_at)
qed

subsection \<open>The cache\<close>

lemma threads_twice: "threads (snd (threads w)) = (fst (threads w), snd (threads w))"
  by (simp add: threads_def split: option.splits)

lemma threads_rebuild:
  assumes "threadArrayCache w = None"
  shows "fst (threads w) = length (arrays w) \<and>
         arrays (snd (threads w)) = arrays w @ [Map_values (threadMap w)] \<and>
         threadArrayCache (snd (threads w)) = Some (length (arrays w))"
  using assms by (simp add: threads_def)

lemma appendComment_cache: "appendComment w c = Some w' \<Longrightarrow> threadArrayCache w' = None"
  by (auto simp: appendComment_def dest!: flattenThread_result split: option.splits)

lemma prependComment_cache:
  assumes "prependComment w c = Some w'"
  shows "threadArrayCache w' = None"
proof -
  obtain cur w1 where th: "threads w = (cur, w1)" by (cases "threads w")
  from assms th obtain t w3 where
    fl: "flattenThread (w1\<lparr>threadArrayCache := None, threadMap := []\<rparr>) c = Some (t, w3)"
    and w': "w' = foldl set_by_parent
                (w3\<lparr>threadMap := Map_set [] (PostHashHex (posts w3 ! c)) t\<rparr>) (arrays w1 ! cur)"
    by (auto simp: prependComment_def Let_def split: option.splits)
  from flattenThread_result[OF fl] have "threadArrayCache w3 = None" by auto
  then show ?thesis by (simp add: w' foldl_set_by_parent)
qed

lemma threads_cached: "threadArrayCache w = Some a \<Longrightarrow> fst (threads w) = a"
  by (simp add: threads_def)

lemma prependComment_returns:
  assumes "flattenThread w c = Some (tn, wn)"
  shows "\<exists>w'. prependComment w c = Some w'"
proof -
  obtain cur w1 where th: "threads w = (cur, w1)" by (cases "threads w")
  have fr: "posts (w1\<lparr>threadArrayCache := None, threadMap := []\<rparr>) = posts w"
    using threads_frame(1)[of w] th by simp
  from flattenThread_posts_only[OF assms fr] th show ?thesis
    by (simp add: prependComment_def Let_def)
qed

subsection \<open>The example state\<close>

lemma constructor_ps0: "constructor ps0 0 = Some st0"
  by (simp add: constructor_def ps0_def st0_def mk_post_def addThreads_def appendComment_def
      flattenThread_def walkSubcomments.simps index0_def push_def alloc_thread_def)

lemma constructor_slip: "constructor slip_posts 0 = Some slip_state"
  by (simp add: constructor_def slip_posts_def slip_state_def mk_post_def addThreads_def
      appendComment_def flattenThread_def walkSubcomments.simps index0_def push_def
      alloc_thread_def)

lemma reachable_st0: "reachable st0"
proof (rule reachable.init[of 0 ps0])
  show "0 < length ps0" by (simp add: ps0_def)
  show "comments_ok ps0 (ps0 ! 0)" by (simp add: comments_ok_def ps0_def mk_post_def)
  show "constructor ps0 0 = Some st0" by (rule constructor_ps0)
qed

section \<open>The claims\<close>

text \<open>
  C1 (flatten-chain). At the store \<open>chain_posts\<close> (\<open>P.Comments = [A]\<close>, \<open>A.Comments = [B]\<close>,
  \<open>B.Comments = []\<close>) \<open>flattenThread(P)\<close> returns a thread whose children are \<open>A\<close>, \<open>B\<close> and
  then \<open>undefined\<close>: the walk visits \<open>B.Comments[0]\<close>, which is missing, and appends it.
  The children are \<open>A\<close>, \<open>B\<close> when \<open>B.Comments\<close> is \<open>null\<close>.
\<close>

theorem flattenThread_chain_appends_undefined:
  "flattenThread
     \<lparr>posts = chain_posts, thread_objs = [], arrays = [], threadMap = [], threadArrayCache = None\<rparr> 0
   = Some (0, \<lparr>posts = chain_posts,
               thread_objs = [\<lparr>parent = 0, children = [Some 1, Some 2, None]\<rparr>],
               arrays = [], threadMap = [], threadArrayCache = None\<rparr>) \<and>
   flattenThread
     \<lparr>posts = chain_posts_null, thread_objs = [], arrays = [], threadMap = [],
        threadArrayCache = None\<rparr> 0
   = Some (0, \<lparr>posts = chain_posts_null,
               thread_objs = [\<lparr>parent = 0, children = [Some 1, Some 2]\<rparr>],
               arrays = [], threadMap = [], threadArrayCache = None\<rparr>)"
  by (simp add: chain_posts_def chain_posts_null_def mk_post_def flattenThread_def
      walkSubcomments.simps index0_def push_def alloc_thread_def)

text \<open>
  C2, as the spec states it, fails: \<open>addReplyToComment\<close> does not invalidate the cache.
  In \<open>st0\<close> a first read of \<open>threads\<close> builds the array 0 and caches it (\<open>st0_read\<close>). A
  reply to the last child \<open>B\<close> of thread \<open>P\<close> returns, the cache still holds the array 0
  afterwards, and the next read returns that same array, not a new one.
\<close>

theorem addReplyToComment_keeps_cached_array:
  "fst (threads st0) = 0 \<and> threadArrayCache st0_read = Some 0 \<and>
   \<not> isl (addReplyToComment st0_read ''P'' 3 5) \<and>
   threadArrayCache (projr (addReplyToComment st0_read ''P'' 3 5)) = Some 0 \<and>
   fst (threads (projr (addReplyToComment st0_read ''P'' 3 5))) = 0 \<and>
   arrays (projr (addReplyToComment st0_read ''P'' 3 5)) = arrays st0_read"
  by (simp add: st0_read_def threads_def st0_def ps0_def mk_post_def addReplyToComment_def
      Map_get_def lastChild_of_def op_defs slice_def Map_values_def)

text \<open>
  C2 (cache identity), amended. A second read of \<open>threads\<close> right after a first returns
  the same array reference and changes nothing. \<open>removeThread\<close>, \<open>reset\<close>, \<open>appendComment\<close>
  and \<open>prependComment\<close> leave the cache empty, and a read with an empty cache returns a new
  array, one more than the arrays that existed, holding the values of the current map.
  \<open>addReplyToComment\<close> and \<open>hideComment\<close>, whether they return or throw, leave the cache,
  the arrays and the map as they were, so a read after them returns the array that was
  cached before; they change the \<open>Thread\<close> objects that array refers to.
\<close>

theorem threads_cache_discipline:
  "threads (snd (threads w)) = (fst (threads w), snd (threads w)) \<and>
   threadArrayCache (removeThread w k) = None \<and>
   threadArrayCache (reset w) = None \<and>
   (\<forall>w'. appendComment w c = Some w' \<longrightarrow> threadArrayCache w' = None) \<and>
   (\<forall>w'. prependComment w c = Some w' \<longrightarrow> threadArrayCache w' = None) \<and>
   (threadArrayCache w = None \<longrightarrow>
      fst (threads w) = length (arrays w) \<and>
      arrays (snd (threads w)) = arrays w @ [Map_values (threadMap w)] \<and>
      threadArrayCache (snd (threads w)) = Some (length (arrays w))) \<and>
   (\<forall>w' e. addReplyToComment w k p r = Inr w' \<or> addReplyToComment w k p r = Inl (e, w') \<or>
            hideComment w c p k = Inr w' \<or> hideComment w c p k = Inl (e, w') \<longrightarrow>
      threadArrayCache w' = threadArrayCache w \<and> arrays w' = arrays w \<and>
      threadMap w' = threadMap w \<and>
      (\<forall>a. threadArrayCache w = Some a \<longrightarrow> fst (threads w') = a))"
proof -
  have kept: "threadArrayCache w' = threadArrayCache w \<and> arrays w' = arrays w \<and>
      threadMap w' = threadMap w \<and>
      (\<forall>a. threadArrayCache w = Some a \<longrightarrow> fst (threads w') = a)"
    if "parents_kept w w'" for w'
    using that by (simp add: parents_kept_def threads_cached)
  have ops: "parents_kept w w'"
    if "addReplyToComment w k p r = Inr w' \<or> addReplyToComment w k p r = Inl (e, w') \<or>
        hideComment w c p k = Inr w' \<or> hideComment w c p k = Inl (e, w')" for w' e
    using that addReplyToComment_parents_kept[of w k p r w' e] hideComment_parents_kept[of w c p k w' e]
    by blast
  have a: "threadArrayCache (removeThread w k) = None" by (simp add: removeThread_def)
  have b: "threadArrayCache (reset w) = None" by (simp add: reset_def)
  show ?thesis
    using threads_twice[of w] a b appendComment_cache[of w c] prependComment_cache[of w c]
      threads_rebuild[of w] kept ops
    by blast
qed

theorem threads_cache_discipline_witness:
  "threadArrayCache st0 = None \<and>
   threads (snd (threads st0)) = (0, snd (threads st0)) \<and>
   fst (threads st0) = 0 \<and> arrays (snd (threads st0)) = [[0, 1]] \<and>
   threadArrayCache (removeThread st0 ''P'') = None \<and>
   (\<exists>w'. appendComment st0 5 = Some w' \<and> threadArrayCache w' = None) \<and>
   (\<exists>w'. prependComment st0 5 = Some w' \<and> threadArrayCache w' = None) \<and>
   threadArrayCache (snd (threads st0)) = Some 0 \<and>
   (\<exists>w'. addReplyToComment (snd (threads st0)) ''P'' 3 5 = Inr w' \<and> fst (threads w') = 0) \<and>
   (\<exists>w'. hideComment (snd (threads st0)) 3 2 ''P'' = Inr w' \<and> fst (threads w') = 0)"
proof -
  let ?w1 = "snd (threads st0)"
  have none: "threadArrayCache st0 = None" by (simp add: st0_def)
  have vals: "length (arrays st0) = 0" "arrays st0 @ [Map_values (threadMap st0)] = [[0, 1]]"
    by (simp_all add: st0_def Map_values_def)
  have cached: "threadArrayCache ?w1 = Some 0" by (simp add: threads_def st0_def)
  obtain wa where wa: "appendComment st0 5 = Some wa"
    by (simp add: st0_def ps0_def mk_post_def appendComment_def flattenThread_def alloc_thread_def)
  obtain wp where wp: "prependComment st0 5 = Some wp"
    by (simp add: st0_def ps0_def mk_post_def prependComment_def threads_def flattenThread_def
        alloc_thread_def Let_def)
  obtain wr where wr: "addReplyToComment ?w1 ''P'' 3 5 = Inr wr"
    by (simp add: threads_def st0_def ps0_def mk_post_def addReplyToComment_def Map_get_def
        lastChild_of_def op_defs slice_def)
  obtain wh where wh: "hideComment ?w1 3 2 ''P'' = Inr wh"
    by (simp add: threads_def st0_def ps0_def mk_post_def hideComment_def getThread_def Map_get_def
        op_defs set_IsHidden_def)
  note at_st0 = threads_cache_discipline[of st0 "''P''" 5 3 5]
  have again: "threads ?w1 = (fst (threads st0), ?w1)" using at_st0 by blast
  have built: "fst (threads st0) = length (arrays st0) \<and>
      arrays ?w1 = arrays st0 @ [Map_values (threadMap st0)]"
    using at_st0 none by blast
  have dropped: "threadArrayCache (removeThread st0 ''P'') = None \<and>
      threadArrayCache wa = None \<and> threadArrayCache wp = None"
    using at_st0 wa wp by blast
  have first: "threads ?w1 = (0, ?w1) \<and> fst (threads st0) = 0 \<and> arrays ?w1 = [[0, 1]] \<and>
      threadArrayCache (removeThread st0 ''P'') = None \<and>
      threadArrayCache wa = None \<and> threadArrayCache wp = None"
    using again built dropped by (simp add: vals)
  from threads_cache_discipline[of ?w1 "''P''" 3 3 5] cached wr
  have second: "fst (threads wr) = 0" by blast
  from threads_cache_discipline[of ?w1 "''P''" 3 2 5] cached wh
  have third: "fst (threads wh) = 0" by blast
  show ?thesis using none first cached wa wp wr wh second third by blast
qed

text \<open>
  C3 (no match). At the state \<open>st0\<close>, whose thread \<open>P\<close> has the chain \<open>A\<close>, \<open>B\<close>, a reply
  to the post \<open>Z\<close> (its id is neither the thread id nor the id of a chain element) reaches
  case 4, returns and leaves the chain \<open>A\<close>, copy of \<open>Z\<close>, \<open>A\<close>, \<open>B\<close>: four elements
  instead of two. \<open>hideComment\<close> with \<open>Z\<close> as the parent comment throws a \<open>TypeError\<close>,
  after it has set \<open>IsHidden\<close> on the post to hide; the thread objects are as before.
\<close>

theorem unmatched_reply_duplicates_chain:
  "\<not> isl (addReplyToComment st0 ''P'' 6 5) \<and>
   children (thread_objs st0 ! 0) = [Some 2, Some 3] \<and>
   children (thread_objs (projr (addReplyToComment st0 ''P'' 6 5)) ! 0) =
     [Some 2, Some 8, Some 2, Some 3] \<and>
   posts (projr (addReplyToComment st0 ''P'' 6 5)) ! 8 = mk_post ''Z'' None 8 \<and>
   hideComment st0 3 6 ''P'' = Inl (TypeError, set_IsHidden st0 3) \<and>
   thread_objs (set_IsHidden st0 3) = thread_objs st0 \<and>
   IsHidden (posts (set_IsHidden st0 3) ! 3)"
  by (simp add: st0_def ps0_def mk_post_def addReplyToComment_def hideComment_def getThread_def
      Map_get_def lastChild_of_def op_defs slice_def set_IsHidden_def number_add_examples)

text \<open>
  C4 (append to tail). For a registered thread whose chain ends in the post \<open>x\<close>, with a
  count that is a safe integer, \<open>addReplyToComment(T.id, x, r)\<close> returns; the last slot of
  the chain holds a new object, the shallow copy of \<open>x\<close> with \<open>CommentCount\<close> exactly one
  higher; \<open>r\<close> follows it as the new last element, so the chain is one longer and its other
  elements are the same objects; the parent is a second new object with the fields of the
  old parent, its count included. No existing post changes, no other thread object
  changes, and the map, the cache and the arrays stay as they were. Beyond the safe
  integers the addition of the source rounds (\<open>number_add_rounds\<close>).
\<close>

theorem addReplyToComment_tail:
  assumes reg: "Map_get (threadMap w) tid = Some t"
    and tv: "t < length (thread_objs w)"
    and pv: "parent (thread_objs w ! t) < length (posts w)"
    and ch: "children (thread_objs w ! t) = cs @ [Some x]"
    and safe: "\<bar>CommentCount (posts w ! x)\<bar> \<le> MAX_SAFE_INTEGER"
  shows "\<exists>w'. addReplyToComment w tid x r = Inr w' \<and>
           children (thread_objs w' ! t) = cs @ [Some (length (posts w)), Some r] \<and>
           posts w' ! length (posts w) = (posts w ! x)\<lparr>CommentCount := CommentCount (posts w ! x) + 1\<rparr> \<and>
           parent (thread_objs w' ! t) = Suc (length (posts w)) \<and>
           posts w' ! Suc (length (posts w)) = posts w ! parent (thread_objs w ! t) \<and>
           length (posts w') = length (posts w) + 2 \<and>
           (\<forall>a < length (posts w). posts w' ! a = posts w ! a) \<and>
           (\<forall>u. u \<noteq> t \<longrightarrow> thread_objs w' ! u = thread_objs w ! u) \<and>
           length (thread_objs w') = length (thread_objs w) \<and>
           threadMap w' = threadMap w \<and> threadArrayCache w' = threadArrayCache w \<and> arrays w' = arrays w"
proof -
  let ?n = "length (posts w)"
  let ?th = "thread_objs w ! t"
  let ?x' = "(posts w ! x)\<lparr>CommentCount := CommentCount (posts w ! x) + 1\<rparr>"
  let ?w' = "w\<lparr>posts := posts w @ [?x', posts w ! parent ?th],
               thread_objs := (thread_objs w)[t := ?th\<lparr>parent := Suc ?n, children := cs @ [Some ?n, Some r]\<rparr>]\<rparr>"
  have run: "addReplyToComment w tid x r = Inr ?w'"
    using reg tv pv ch
    by (simp add: addReplyToComment_def op_defs lastChild_of_snoc slice_butlast[simplified]
        nth_append number_add_safe(1)[OF safe])
  show ?thesis
    unfolding run using tv by (simp add: nth_append)
qed

theorem addReplyToComment_tail_witness:
  "Map_get (threadMap st0) ''P'' = Some 0 \<and> 0 < length (thread_objs st0) \<and>
   parent (thread_objs st0 ! 0) < length (posts st0) \<and>
   children (thread_objs st0 ! 0) = [Some 2] @ [Some 3] \<and>
   \<bar>CommentCount (posts st0 ! 3)\<bar> \<le> MAX_SAFE_INTEGER \<and>
   (\<exists>w'. addReplyToComment st0 ''P'' 3 5 = Inr w' \<and>
      children (thread_objs w' ! 0) = [Some 2, Some 8, Some 5] \<and>
      posts w' ! 8 = mk_post ''B'' None 1 \<and>
      parent (thread_objs w' ! 0) = 9 \<and>
      posts w' ! 9 = mk_post ''P'' (Some [2]) 1)"
proof -
  have h1: "Map_get (threadMap st0) ''P'' = Some 0" by (simp add: st0_def Map_get_def)
  have h2: "0 < length (thread_objs st0)" by (simp add: st0_def)
  have h3: "parent (thread_objs st0 ! 0) < length (posts st0)" by (simp add: st0_def ps0_def)
  have h4: "children (thread_objs st0 ! 0) = [Some 2] @ [Some 3]" by (simp add: st0_def)
  have h5: "\<bar>CommentCount (posts st0 ! 3)\<bar> \<le> MAX_SAFE_INTEGER"
    by (simp add: st0_def ps0_def mk_post_def MAX_SAFE_INTEGER_def)
  have vals: "length (posts st0) = 8" "posts st0 ! 3 = mk_post ''B'' None 0"
    "posts st0 ! parent (thread_objs st0 ! 0) = mk_post ''P'' (Some [2]) 1"
    by (simp_all add: st0_def ps0_def)
  from addReplyToComment_tail[OF h1 h2 h3 h4 h5, of 5] obtain w' where
    "addReplyToComment st0 ''P'' 3 5 = Inr w'"
    "children (thread_objs w' ! 0) = [Some 2] @ [Some (length (posts st0)), Some 5]"
    "posts w' ! length (posts st0) = (posts st0 ! 3)\<lparr>CommentCount := CommentCount (posts st0 ! 3) + 1\<rparr>"
    "parent (thread_objs w' ! 0) = Suc (length (posts st0))"
    "posts w' ! Suc (length (posts st0)) = posts st0 ! parent (thread_objs st0 ! 0)"
    by blast
  then have "addReplyToComment st0 ''P'' 3 5 = Inr w' \<and>
      children (thread_objs w' ! 0) = [Some 2, Some 8, Some 5] \<and>
      posts w' ! 8 = mk_post ''B'' None 1 \<and>
      parent (thread_objs w' ! 0) = 9 \<and>
      posts w' ! 9 = mk_post ''P'' (Some [2]) 1"
    by (simp add: vals mk_post_def)
  then show ?thesis using h1 h2 h3 h4 h5 by blast
qed

text \<open>
  C5 (reply to the thread's parent). The manager built from \<open>slip_posts\<close> holds the thread
  \<open>P\<close> with the chain \<open>A\<close>, \<open>undefined\<close>, \<open>C\<close>, \<open>undefined\<close>. A reply \<open>R\<close> to \<open>P\<close> itself
  returns; the last element of the chain is \<open>undefined\<close>, so the first branch is taken
  although the chain is not empty, and the chain of four is replaced by \<open>[R]\<close>.
\<close>

theorem reply_to_parent_drops_chain:
  "constructor slip_posts 0 = Some slip_state \<and>
   children (thread_objs slip_state ! 0) = [Some 2, None, Some 3, None] \<and>
   Map_get (threadMap slip_state) ''P'' = Some 0 \<and>
   PostHashHex (posts slip_state ! 1) = ''P'' \<and>
   \<not> isl (addReplyToComment slip_state ''P'' 1 4) \<and>
   children (thread_objs (projr (addReplyToComment slip_state ''P'' 1 4)) ! 0) = [Some 4]"
  by (simp add: constructor_slip)
    (simp add: slip_state_def slip_posts_def mk_post_def addReplyToComment_def Map_get_def
      lastChild_of_def op_defs)

text \<open>
  C6 (reply to a mid-chain node). In \<open>st0\<close> a first reply to the mid-chain post \<open>A\<close>
  (object 2, count 1) puts its copy, object 8 with count 2, into slot 0 (\<open>st0_replied\<close>).
  A second reply that passes the same object 2 again, whose id is the id of the chain
  element 8 and not the thread id, returns and puts a copy of the object passed into the
  slot: its count is 2, not the chain element's count plus one. After two replies the
  count has gone up by one.
\<close>

theorem midchain_reply_copies_argument:
  "addReplyToComment st0 ''P'' 2 5 = Inr st0_replied \<and>
   children (thread_objs st0_replied ! 0) = [Some 8, Some 3] \<and>
   PostHashHex (posts st0_replied ! 2) = PostHashHex (posts st0_replied ! 8) \<and>
   PostHashHex (posts st0_replied ! 2) \<noteq> ''P'' \<and>
   CommentCount (posts st0_replied ! 8) = 2 \<and>
   \<not> isl (addReplyToComment st0_replied ''P'' 2 7) \<and>
   children (thread_objs (projr (addReplyToComment st0_replied ''P'' 2 7)) ! 0) =
     [Some 10, Some 3] \<and>
   CommentCount (posts (projr (addReplyToComment st0_replied ''P'' 2 7)) ! 10) = 2 \<and>
   CommentCount (posts (projr (addReplyToComment st0_replied ''P'' 2 7)) ! 10) \<noteq>
     CommentCount (posts st0_replied ! 8) + 1"
  by (simp add: st0_replied_def st0_def ps0_def mk_post_def addReplyToComment_def Map_get_def
      lastChild_of_def op_defs slice_def number_add_examples)

text \<open>
  C7 (hide and decrement). The manager built from \<open>slip_posts\<close> holds the thread \<open>P\<close> with
  the chain \<open>A\<close>, \<open>undefined\<close>, \<open>C\<close>, \<open>undefined\<close>. \<open>hideComment(R, C, P.id)\<close> names the chain
  element \<open>C\<close> as the parent comment; \<open>findIndex\<close> reads \<open>PostHashHex\<close> of the
  \<open>undefined\<close> element before it reaches \<open>C\<close> and throws. \<open>IsHidden\<close> is set on \<open>R\<close>, and no
  count is decremented: the thread objects and the count of \<open>C\<close> are as before.
\<close>

theorem hideComment_throws_before_match:
  "constructor slip_posts 0 = Some slip_state \<and>
   children (thread_objs slip_state ! 0) = [Some 2, None, Some 3, None] \<and>
   Map_get (threadMap slip_state) ''P'' = Some 0 \<and>
   PostHashHex (posts slip_state ! 3) = ''C'' \<and>
   hideComment slip_state 4 3 ''P'' = Inl (TypeError, set_IsHidden slip_state 4) \<and>
   IsHidden (posts (set_IsHidden slip_state 4) ! 4) \<and>
   thread_objs (set_IsHidden slip_state 4) = thread_objs slip_state \<and>
   CommentCount (posts (set_IsHidden slip_state 4) ! 3) = CommentCount (posts slip_state ! 3)"
  by (simp add: constructor_slip)
    (simp add: slip_state_def slip_posts_def mk_post_def hideComment_def getThread_def Map_get_def
      set_IsHidden_def)

text \<open>
  C8 (prepend ordering). In a reachable state, for a post \<open>n\<close> whose id is not a key of the
  map and whose flattening returns (\<open>flattenThread_returns\<close>: it does whenever the chains of
  first comments below \<open>n\<close> end), \<open>prependComment(n)\<close> returns; the next read of \<open>threads\<close>
  yields an array whose first element is the new thread object, equal to the one
  \<open>flattenThread(n)\<close> builds and with \<open>n\<close> itself as its parent, followed by the threads
  the map held before, in their order. The older thread objects and the posts are
  unchanged.
\<close>

theorem prependComment_first:
  assumes reach: "reachable w"
    and nv: "n < length (posts w)"
    and fresh: "Map_get (threadMap w) (PostHashHex (posts w ! n)) = None"
    and flat: "flattenThread w n = Some (tn, wn)"
  shows "\<exists>w'. prependComment w n = Some w' \<and>
           arrays (snd (threads w')) ! fst (threads w') = tn # Map_values (threadMap w) \<and>
           thread_objs w' ! tn = thread_objs wn ! tn \<and>
           parent (thread_objs w' ! tn) = n \<and>
           (\<forall>u < length (thread_objs w). thread_objs w' ! u = thread_objs w ! u) \<and>
           posts w' = posts w"
proof -
  have inv: "manager_inv w" by (rule reachable_inv[OF reach])
  from prependComment_returns[OF flat] obtain w' where run: "prependComment w n = Some w'" ..
  have inv': "manager_inv w'" by (rule prependComment_inv[OF inv nv run])
  from prependComment_unfold[OF inv run] obtain ch where
    objs: "thread_objs w' = thread_objs w @ [\<lparr>parent = n, children = ch\<rparr>]"
    and posts': "posts w' = posts w"
    and fl: "flattenThread w n = Some (length (thread_objs w),
              w\<lparr>thread_objs := thread_objs w @ [\<lparr>parent = n, children = ch\<rparr>]\<rparr>)"
    by (auto simp: threads_frame)
  from fl flat have tn: "tn = length (thread_objs w)"
    and wn: "wn = w\<lparr>thread_objs := thread_objs w @ [\<lparr>parent = n, children = ch\<rparr>]\<rparr>"
    by simp_all
  have order: "threadMap w' = (PostHashHex (posts w ! n), tn) # threadMap w"
    using prependComment_order[OF inv fresh run] tn by simp
  have "arrays (snd (threads w')) ! fst (threads w') = Map_values (threadMap w')"
    by (rule threads_current[OF inv'])
  then have "arrays (snd (threads w')) ! fst (threads w') = tn # Map_values (threadMap w)"
    by (simp add: order Map_values_def)
  moreover have "thread_objs w' ! tn = thread_objs wn ! tn" "parent (thread_objs w' ! tn) = n"
    by (simp_all add: objs tn wn)
  moreover have "\<forall>u < length (thread_objs w). thread_objs w' ! u = thread_objs w ! u"
    by (simp add: objs nth_append)
  ultimately show ?thesis using run posts' by blast
qed

theorem prependComment_first_witness:
  "reachable st0 \<and> 5 < length (posts st0) \<and>
   Map_get (threadMap st0) (PostHashHex (posts st0 ! 5)) = None \<and>
   flattenThread st0 5 =
     Some (2, st0\<lparr>thread_objs := thread_objs st0 @ [\<lparr>parent = 5, children = []\<rparr>]\<rparr>) \<and>
   (\<exists>w'. prependComment st0 5 = Some w' \<and>
      arrays (snd (threads w')) ! fst (threads w') = [2, 0, 1] \<and>
      thread_objs w' ! 2 = \<lparr>parent = 5, children = []\<rparr> \<and>
      PostHashHex (posts w' ! parent (thread_objs w' ! 2)) = ''R'')"
proof -
  have h2: "5 < length (posts st0)" by (simp add: st0_def ps0_def)
  have h3: "Map_get (threadMap st0) (PostHashHex (posts st0 ! 5)) = None"
    by (simp add: st0_def ps0_def mk_post_def Map_get_def)
  have h4: "flattenThread st0 5 =
     Some (2, st0\<lparr>thread_objs := thread_objs st0 @ [\<lparr>parent = 5, children = []\<rparr>]\<rparr>)"
    by (simp add: st0_def ps0_def mk_post_def flattenThread_def alloc_thread_def)
  have vals: "Map_values (threadMap st0) = [0, 1]" "PostHashHex (posts st0 ! 5) = ''R''"
    "length (thread_objs st0) = 2"
    by (simp_all add: st0_def ps0_def mk_post_def Map_values_def)
  from prependComment_first[OF reachable_st0 h2 h3 h4] obtain w' where
    "prependComment st0 5 = Some w'"
    "arrays (snd (threads w')) ! fst (threads w') = 2 # Map_values (threadMap st0)"
    "thread_objs w' ! 2 =
       thread_objs (st0\<lparr>thread_objs := thread_objs st0 @ [\<lparr>parent = 5, children = []\<rparr>]\<rparr>) ! 2"
    "parent (thread_objs w' ! 2) = 5"
    "posts w' = posts st0"
    by blast
  then have "prependComment st0 5 = Some w' \<and>
      arrays (snd (threads w')) ! fst (threads w') = [2, 0, 1] \<and>
      thread_objs w' ! 2 = \<lparr>parent = 5, children = []\<rparr> \<and>
      PostHashHex (posts w' ! parent (thread_objs w' ! 2)) = ''R''"
    by (simp add: vals nth_append)
  then show ?thesis using reachable_st0 h2 h3 h4 by blast
qed

text \<open>
  C9 (unknown thread id). When the thread id is not a key of the map, both operations
  throw a \<open>TypeError\<close>: \<open>addReplyToComment\<close> before it writes anything, \<open>hideComment\<close>
  after it has set \<open>IsHidden\<close> on the post passed. Neither completes.
\<close>

theorem unknown_thread_faults:
  assumes "Map_get (threadMap w) tid = None"
  shows "addReplyToComment w tid p r = Inl (TypeError, w) \<and>
         hideComment w c p tid = Inl (TypeError, set_IsHidden w c)"
  using assms by (simp add: addReplyToComment_def hideComment_def getThread_def Let_def)

theorem unknown_thread_faults_witness:
  "Map_get (threadMap st0) ''X'' = None \<and>
   addReplyToComment st0 ''X'' 1 5 = Inl (TypeError, st0) \<and>
   hideComment st0 3 2 ''X'' = Inl (TypeError, set_IsHidden st0 3)"
proof -
  have h: "Map_get (threadMap st0) ''X'' = None" by (simp add: st0_def Map_get_def)
  from unknown_thread_faults[OF h] show ?thesis using h by blast
qed

text \<open>
  C10 (map-key coherence). In every state the public operations can reach, every entry
  of the map has the \<open>PostHashHex\<close> of its thread's parent as its key. In particular the
  parent of the thread that \<open>addReplyToComment\<close> or \<open>hideComment\<close> works on has the
  thread id as its \<open>PostHashHex\<close> before and after the call.
\<close>

theorem reachable_key_coherent:
  assumes "reachable w"
  shows "key_coherent w \<and>
         (\<forall>tid t p r w'. Map_get (threadMap w) tid = Some t \<and> addReplyToComment w tid p r = Inr w' \<longrightarrow>
            PostHashHex (posts w' ! parent (thread_objs w' ! t)) = tid \<and>
            PostHashHex (posts w ! parent (thread_objs w ! t)) = tid) \<and>
         (\<forall>tid t c p w'. Map_get (threadMap w) tid = Some t \<and> hideComment w c p tid = Inr w' \<longrightarrow>
            PostHashHex (posts w' ! parent (thread_objs w' ! t)) = tid \<and>
            PostHashHex (posts w ! parent (thread_objs w ! t)) = tid)"
proof -
  have inv: "manager_inv w" by (rule reachable_inv[OF assms])
  have entry: "entry_ok w (tid, t)" if "Map_get (threadMap w) tid = Some t" for tid t
    using inv that by (auto simp: manager_inv_def Map_get_def dest: map_of_SomeD)
  have kept: "PostHashHex (posts w' ! parent (thread_objs w' ! t)) = tid \<and>
              PostHashHex (posts w ! parent (thread_objs w ! t)) = tid"
    if "Map_get (threadMap w) tid = Some t" and "parents_kept w w'" for tid t w'
    using entry[OF that(1)] that(2) by (simp add: entry_ok_def parents_kept_def)
  show ?thesis
    using manager_inv_key_coherent[OF inv] kept addReplyToComment_parents_kept
      hideComment_parents_kept by blast
qed

theorem reachable_key_coherent_witness:
  "reachable st0 \<and> key_coherent st0 \<and>
   (\<exists>w'. addReplyToComment st0 ''P'' 3 5 = Inr w' \<and>
      PostHashHex (posts w' ! parent (thread_objs w' ! 0)) = ''P'')"
proof -
  have run: "\<exists>w'. addReplyToComment st0 ''P'' 3 5 = Inr w'"
    by (simp add: st0_def ps0_def mk_post_def addReplyToComment_def Map_get_def lastChild_of_def
        op_defs slice_def)
  have reg: "Map_get (threadMap st0) ''P'' = Some 0" by (simp add: st0_def Map_get_def)
  from reachable_key_coherent[OF reachable_st0] run reg show ?thesis
    using reachable_st0 by blast
qed

end
